theory Spec2Isabelle
  imports Complex_Main "HOL-Library.Multiset"
begin

section \<open>Samplers of torchreid/data/sampler.py\<close>

text \<open>
  The module orders and shards dataset indices. Python integers are \<open>int\<close>, dataset
  indices (positions produced by \<open>enumerate\<close> and \<open>range(len(...))\<close>) are \<open>nat\<close>,
  every raise of the source is a value of \<open>py_error\<close> on the left of a sum.
\<close>

subsection \<open>Errors and the module namespace\<close>

datatype py_error =
    ValueError
  | AssertionError
  | ZeroDivisionError
  | IndexError
  | NameError string
  | AttributeError
  | RuntimeError

text \<open>
  A global name of the module is bound to some object. Two objects matter: the \<open>torch\<close>
  package, of which the code uses \<open>randperm\<close> with a generator seeded by \<open>manual_seed\<close>
  (seed, then size, give the permutation), and \<open>torch.distributed\<close> under the name
  \<open>dist\<close> (\<open>is_available()\<close>, \<open>get_world_size()\<close>, \<open>get_rank()\<close>).
  Everything else is opaque.
\<close>

datatype binding =
    Opaque
  | Torch "nat \<Rightarrow> nat \<Rightarrow> nat list"
  | Dist bool int int

type_synonym namespace = "string \<Rightarrow> binding option"

text \<open>
  The names the module binds at top level: lines 1 to 6 (the imports), line 8 and the
  class and function definitions. Neither \<open>torch\<close> nor \<open>dist\<close> is among them:
  \<open>from torch.utils.data.sampler import ...\<close> binds the three imported names only.
\<close>

definition module_globals :: namespace where
  "module_globals = map_of
     [(''division'', Opaque), (''absolute_import'', Opaque), (''copy'', Opaque),
      (''np'', Opaque), (''random'', Opaque), (''defaultdict'', Opaque),
      (''Sampler'', Opaque), (''RandomSampler'', Opaque), (''SequentialSampler'', Opaque),
      (''AVAI_SAMPLERS'', Opaque), (''RandomIdentitySampler'', Opaque),
      (''RandomDomainSampler'', Opaque), (''RandomDatasetSampler'', Opaque),
      (''IterDistributedSampler'', Opaque), (''InferenceSampler'', Opaque),
      (''build_train_sampler'', Opaque)]"

text \<open>\<open>dist.is_available()\<close> followed by \<open>dist.get_world_size()\<close>, lines 208 to 210.\<close>

definition dist_world_size :: "namespace \<Rightarrow> py_error + int" where
  "dist_world_size ns =
     (case ns ''dist'' of
        None \<Rightarrow> Inl (NameError ''dist'')
      | Some (Dist avail ws rk) \<Rightarrow> if \<not> avail then Inl RuntimeError else Inr ws
      | Some _ \<Rightarrow> Inl AttributeError)"

text \<open>\<open>dist.is_available()\<close> followed by \<open>dist.get_rank()\<close>, lines 212 to 214.\<close>

definition dist_rank :: "namespace \<Rightarrow> py_error + int" where
  "dist_rank ns =
     (case ns ''dist'' of
        None \<Rightarrow> Inl (NameError ''dist'')
      | Some (Dist avail ws rk) \<Rightarrow> if \<not> avail then Inl RuntimeError else Inr rk
      | Some _ \<Rightarrow> Inl AttributeError)"

subsection \<open>Python slices\<close>

text \<open>
  One bound of a slice over a sequence of length \<open>n\<close>, as the interpreter adjusts it:
  a negative bound counts from the end, and the result is clamped to the sequence.
\<close>

definition slice_bound :: "int \<Rightarrow> int \<Rightarrow> int \<Rightarrow> int" where
  "slice_bound n step i =
     (if i < 0 then
        (let j = i + n in if j < 0 then (if step < 0 then - 1 else 0) else j)
      else if n \<le> i then (if step < 0 then n - 1 else n)
      else i)"

definition slice_len :: "int \<Rightarrow> int \<Rightarrow> int \<Rightarrow> int" where
  "slice_len start stop step =
     (if step < 0 then (if stop < start then (start - stop - 1) div (- step) + 1 else 0)
      else (if start < stop then (stop - start - 1) div step + 1 else 0))"

text \<open>\<open>xs[start:stop:step]\<close>; a zero step raises ValueError.\<close>

definition py_slice :: "'a list \<Rightarrow> int \<Rightarrow> int \<Rightarrow> int \<Rightarrow> py_error + 'a list" where
  "py_slice xs start stop step =
     (if step = 0 then Inl ValueError
      else
        let n = int (length xs);
            a = slice_bound n step start;
            b = slice_bound n step stop
        in Inr (map (\<lambda>j. xs ! nat (a + int j * step)) [0 ..< nat (slice_len a b step)]))"

text \<open>\<open>xs[:stop]\<close>.\<close>

definition py_prefix :: "'a list \<Rightarrow> int \<Rightarrow> 'a list" where
  "py_prefix xs stop = take (nat (slice_bound (int (length xs)) 1 stop)) xs"

subsection \<open>Items, label groups and dictionaries\<close>

text \<open>
  An element of \<open>data_source\<close> is a tuple \<open>(img_path, pid, camid, dsetid)\<close>; the
  samplers read positions 1, 2 and 3.
\<close>

record item =
  img_path :: string
  pid :: int
  camid :: int
  dsetid :: int

text \<open>
  A \<open>defaultdict(list)\<close> is an association list in insertion order, as the keys of a
  Python dictionary are. \<open>dict_append k v d\<close> is \<open>d[k].append(v)\<close>, \<open>dict_get d k\<close>
  is the read \<open>d[k]\<close> (the empty list for a missing key), and \<open>dict_set k vs d\<close>
  stores the list \<open>vs\<close>, which stands for the value of \<open>d[k]\<close> after an in-place
  change of that list.
\<close>

fun dict_append :: "'k \<Rightarrow> 'v \<Rightarrow> ('k \<times> 'v list) list \<Rightarrow> ('k \<times> 'v list) list" where
  "dict_append k v [] = [(k, [v])]"
| "dict_append k v ((k', vs) # d) =
     (if k' = k then (k', vs @ [v]) # d else (k', vs) # dict_append k v d)"

definition dict_get :: "('k \<times> 'v list) list \<Rightarrow> 'k \<Rightarrow> 'v list" where
  "dict_get d k = (case map_of d k of None \<Rightarrow> [] | Some vs \<Rightarrow> vs)"

fun dict_set :: "'k \<Rightarrow> 'v list \<Rightarrow> ('k \<times> 'v list) list \<Rightarrow> ('k \<times> 'v list) list" where
  "dict_set k vs [] = [(k, vs)]"
| "dict_set k vs ((k', vs') # d) =
     (if k' = k then (k', vs) # d else (k', vs') # dict_set k vs d)"

text \<open>
  The grouping loop of every balanced sampler (lines 35 to 38, 105 to 108, 164 to 167):
  one forward scan of \<open>enumerate(data_source)\<close>.
\<close>

definition group_index :: "(item \<Rightarrow> int) \<Rightarrow> item list \<Rightarrow> (int \<times> nat list) list" where
  "group_index label data_source =
     foldl (\<lambda>d (index, items). dict_append (label items) index d) [] (enumerate 0 data_source)"

subsection \<open>Random draws\<close>

text \<open>
  The outcomes of the random number generators are read from a tape, in program
  order: \<open>randbelow n\<close> takes the next entry, reduced below \<open>n\<close>; an exhausted tape
  reads as zeros. Every statement about a pass holds for all tapes, that is for every
  outcome of the draws.
\<close>

type_synonym tape = "nat list"

fun randbelow :: "nat \<Rightarrow> tape \<Rightarrow> nat \<times> tape" where
  "randbelow n [] = (0, [])"
| "randbelow n (r # t) = (r mod n, t)"

text \<open>
  \<open>random.sample(population, k)\<close>: ValueError unless \<open>0 \<le> k \<le> len(population)\<close>;
  otherwise \<open>k\<close> draws from a pool that loses each drawn position (the last entry of
  the pool moves into the hole).
\<close>

fun sample_pool :: "nat \<Rightarrow> 'a list \<Rightarrow> tape \<Rightarrow> 'a list \<times> tape" where
  "sample_pool 0 pool t = ([], t)"
| "sample_pool (Suc k) pool t =
     (let (j, t') = randbelow (length pool) t;
          (result, t'') = sample_pool k (butlast (pool[j := last pool])) t'
      in (pool ! j # result, t''))"

definition random_sample :: "'a list \<Rightarrow> int \<Rightarrow> tape \<Rightarrow> py_error + ('a list \<times> tape)" where
  "random_sample population k t =
     (if \<not> (0 \<le> k \<and> k \<le> int (length population)) then Inl ValueError
      else Inr (sample_pool (nat k) population t))"

text \<open>
  \<open>random.shuffle(x)\<close>: for \<open>i\<close> from \<open>len(x) - 1\<close> down to 1, swap \<open>x[i]\<close> with
  \<open>x[j]\<close> for a random \<open>j \<le> i\<close>.
\<close>

fun shuffle_loop :: "nat \<Rightarrow> 'a list \<Rightarrow> tape \<Rightarrow> 'a list \<times> tape" where
  "shuffle_loop 0 x t = (x, t)"
| "shuffle_loop (Suc i) x t =
     (let (j, t') = randbelow (Suc i + 1) t
      in shuffle_loop i (x[Suc i := x ! j, j := x ! Suc i]) t')"

definition random_shuffle :: "'a list \<Rightarrow> tape \<Rightarrow> 'a list \<times> tape" where
  "random_shuffle x t = shuffle_loop (length x - 1) x t"

text \<open>
  \<open>np.random.choice(a, size=k, replace=True)\<close>: \<open>k\<close> independent draws from \<open>a\<close>;
  ValueError for a negative size, and for an empty \<open>a\<close> unless no sample is taken.
\<close>

fun choice_loop :: "nat \<Rightarrow> 'a list \<Rightarrow> tape \<Rightarrow> 'a list \<times> tape" where
  "choice_loop 0 a t = ([], t)"
| "choice_loop (Suc k) a t =
     (let (j, t') = randbelow (length a) t;
          (result, t'') = choice_loop k a t'
      in (a ! j # result, t''))"

definition np_random_choice :: "'a list \<Rightarrow> int \<Rightarrow> tape \<Rightarrow> py_error + ('a list \<times> tape)" where
  "np_random_choice a k t =
     (if k < 0 \<or> (a = [] \<and> k \<noteq> 0) then Inl ValueError
      else Inr (choice_loop (nat k) a t))"

subsection \<open>RandomIdentitySampler\<close>

record identity_sampler =
  ris_data_source :: "item list"
  ris_batch_size :: int
  ris_num_instances :: int
  ris_num_pids_per_batch :: int
  ris_index_dic :: "(int \<times> nat list) list"
  ris_pids :: "int list"
  ris_length :: int

text \<open>The estimate of the epoch length, lines 44 to 50.\<close>

fun length_loop :: "int \<Rightarrow> (int \<times> nat list) list \<Rightarrow> int list \<Rightarrow> int \<Rightarrow> int" where
  "length_loop num_instances index_dic [] len = len"
| "length_loop num_instances index_dic (p # pids) len =
     (let idxs = dict_get index_dic p;
          num = int (length idxs);
          num = (if num < num_instances then num_instances else num)
      in length_loop num_instances index_dic pids (len + (num - num mod num_instances)))"

text \<open>
  Lines 24 to 50. The division of line 34 raises ZeroDivisionError for
  \<open>num_instances = 0\<close>.
\<close>

definition RandomIdentitySampler_init ::
  "item list \<Rightarrow> int \<Rightarrow> int \<Rightarrow> py_error + identity_sampler"
where
  "RandomIdentitySampler_init data_source batch_size num_instances =
     (if batch_size < num_instances then Inl ValueError
      else if num_instances = 0 then Inl ZeroDivisionError
      else
        let num_pids_per_batch = batch_size div num_instances;
            index_dic = group_index pid data_source;
            pids = map fst index_dic
        in if \<not> num_pids_per_batch \<le> int (length pids) then Inl AssertionError
           else Inr \<lparr> ris_data_source = data_source, ris_batch_size = batch_size,
                      ris_num_instances = num_instances,
                      ris_num_pids_per_batch = num_pids_per_batch,
                      ris_index_dic = index_dic, ris_pids = pids,
                      ris_length = length_loop num_instances index_dic pids 0 \<rparr>)"

definition RandomIdentitySampler_len :: "identity_sampler \<Rightarrow> int" where
  "RandomIdentitySampler_len s = ris_length s"

text \<open>
  Lines 62 to 67: the indices of one identity are cut into consecutive chunks of
  \<open>num_instances\<close>, each appended to \<open>batch_idxs_dict[pid]\<close>; what is left of
  \<open>batch_idxs\<close> at the end is dropped.
\<close>

fun chunk_loop ::
  "int \<Rightarrow> int \<Rightarrow> nat list \<Rightarrow> nat list \<Rightarrow> (int \<times> nat list list) list
     \<Rightarrow> (int \<times> nat list list) list"
where
  "chunk_loop num_instances p [] batch_idxs batch_idxs_dict = batch_idxs_dict"
| "chunk_loop num_instances p (idx # idxs) batch_idxs batch_idxs_dict =
     (let batch_idxs = batch_idxs @ [idx]
      in if int (length batch_idxs) = num_instances
         then chunk_loop num_instances p idxs [] (dict_append p batch_idxs batch_idxs_dict)
         else chunk_loop num_instances p idxs batch_idxs batch_idxs_dict)"

text \<open>The loop over \<open>self.pids\<close>, lines 55 to 67.\<close>

fun prepare_loop ::
  "identity_sampler \<Rightarrow> int list \<Rightarrow> (int \<times> nat list list) list \<Rightarrow> tape
     \<Rightarrow> py_error + ((int \<times> nat list list) list \<times> tape)"
where
  "prepare_loop s [] batch_idxs_dict t = Inr (batch_idxs_dict, t)"
| "prepare_loop s (p # pids) batch_idxs_dict t =
     (let idxs = dict_get (ris_index_dic s) p
      in case (if int (length idxs) < ris_num_instances s
               then np_random_choice idxs (ris_num_instances s) t
               else Inr (idxs, t)) of
           Inl e \<Rightarrow> Inl e
         | Inr (idxs, t') \<Rightarrow>
             (let (idxs, t'') = random_shuffle idxs t'
              in prepare_loop s pids
                   (chunk_loop (ris_num_instances s) p idxs [] batch_idxs_dict) t''))"

text \<open>
  The loop over the selected identities, lines 74 to 78. The state is
  \<open>(batch_idxs_dict, avai_pids, final_idxs)\<close>; \<open>pop(0)\<close> on an empty list raises
  IndexError, \<open>remove\<close> of an absent value raises ValueError.
\<close>

fun pop_loop ::
  "int list \<Rightarrow> (int \<times> nat list list) list \<times> int list \<times> nat list
     \<Rightarrow> py_error + ((int \<times> nat list list) list \<times> int list \<times> nat list)"
where
  "pop_loop [] st = Inr st"
| "pop_loop (p # selected_pids) (batch_idxs_dict, avai_pids, final_idxs) =
     (case dict_get batch_idxs_dict p of
        [] \<Rightarrow> Inl IndexError
      | batch_idxs # rest \<Rightarrow>
          (let batch_idxs_dict = dict_set p rest batch_idxs_dict;
               final_idxs = final_idxs @ batch_idxs
           in if length rest = 0
              then (if p \<in> set avai_pids
                    then pop_loop selected_pids (batch_idxs_dict, remove1 p avai_pids, final_idxs)
                    else Inl ValueError)
              else pop_loop selected_pids (batch_idxs_dict, avai_pids, final_idxs)))"

text \<open>
  The loop of lines 72 to 78. It may run forever, so it takes fuel, one unit for each
  test of its condition, and \<open>None\<close> says that the fuel did not suffice.
\<close>

fun avai_loop ::
  "nat \<Rightarrow> int \<Rightarrow> (int \<times> nat list list) list \<times> int list \<times> nat list \<Rightarrow> tape
     \<Rightarrow> (py_error + (nat list \<times> tape)) option"
where
  "avai_loop 0 num_pids_per_batch st t = None"
| "avai_loop (Suc fuel) num_pids_per_batch (batch_idxs_dict, avai_pids, final_idxs) t =
     (if num_pids_per_batch \<le> int (length avai_pids) then
        (case random_sample avai_pids num_pids_per_batch t of
           Inl e \<Rightarrow> Some (Inl e)
         | Inr (selected_pids, t') \<Rightarrow>
             (case pop_loop selected_pids (batch_idxs_dict, avai_pids, final_idxs) of
                Inl e \<Rightarrow> Some (Inl e)
              | Inr st' \<Rightarrow> avai_loop fuel num_pids_per_batch st' t'))
      else Some (Inr (final_idxs, t)))"

definition RandomIdentitySampler_iter ::
  "nat \<Rightarrow> identity_sampler \<Rightarrow> tape \<Rightarrow> (py_error + (nat list \<times> tape)) option"
where
  "RandomIdentitySampler_iter fuel s t =
     (case prepare_loop s (ris_pids s) [] t of
        Inl e \<Rightarrow> Some (Inl e)
      | Inr (batch_idxs_dict, t') \<Rightarrow>
          avai_loop fuel (ris_num_pids_per_batch s) (batch_idxs_dict, ris_pids s, []) t')"

subsection \<open>RandomDomainSampler and RandomDatasetSampler\<close>

text \<open>
  The two classes are the same code up to the label they group by (\<open>camid\<close>, position
  2, or \<open>dsetid\<close>, position 3) and the names of their fields. They are modelled once,
  with the label as a parameter and the field names of RandomDomainSampler; for
  RandomDatasetSampler read \<open>dataset_dict\<close>, \<open>datasets\<close>, \<open>n_img_per_dset\<close> and
  \<open>n_dataset\<close>.
\<close>

record domain_sampler =
  rds_data_source :: "item list"
  rds_domain_dict :: "(int \<times> nat list) list"
  rds_domains :: "int list"
  rds_n_img_per_domain :: int
  rds_batch_size :: int
  rds_n_domain :: int
  rds_length :: int

text \<open>
  One draw from one label, recorded for the statements about rounds: the pool at the
  moment of the draw, the indices drawn and the pool left. The record is kept beside
  the state of the loop and is never read by it.
\<close>

record draw =
  dr_label :: int
  dr_pool :: "nat list"
  dr_selected :: "nat list"
  dr_rest :: "nat list"

text \<open>Lines 134 and 135: \<open>remove\<close> deletes the first occurrence, or raises ValueError.\<close>

fun remove_loop :: "nat list \<Rightarrow> nat list \<Rightarrow> py_error + nat list" where
  "remove_loop [] pool = Inr pool"
| "remove_loop (idx # selected_idxs) pool =
     (if idx \<in> set pool then remove_loop selected_idxs (remove1 idx pool) else Inl ValueError)"

text \<open>
  The loop over the selected labels of one round, lines 129 to 139. The state is
  \<open>(domain_dict, final_idxs, stop_sampling)\<close> and the draws of the round so far.
\<close>

fun domain_loop ::
  "int \<Rightarrow> int list \<Rightarrow> (int \<times> nat list) list \<times> nat list \<times> bool \<times> draw list \<Rightarrow> tape
     \<Rightarrow> py_error + (((int \<times> nat list) list \<times> nat list \<times> bool \<times> draw list) \<times> tape)"
where
  "domain_loop k [] st t = Inr (st, t)"
| "domain_loop k (domain # selected_domains) (dd, final_idxs, stop_sampling, draws) t =
     (let idxs = dict_get dd domain
      in case random_sample idxs k t of
           Inl e \<Rightarrow> Inl e
         | Inr (selected_idxs, t') \<Rightarrow>
             (let final_idxs = final_idxs @ selected_idxs
              in case remove_loop selected_idxs idxs of
                   Inl e \<Rightarrow> Inl e
                 | Inr rest \<Rightarrow>
                     (let dd = dict_set domain rest dd;
                          remaining = int (length rest);
                          stop_sampling = (if remaining < k then True else stop_sampling)
                      in domain_loop k selected_domains
                           (dd, final_idxs, stop_sampling,
                            draws @ [\<lparr> dr_label = domain, dr_pool = idxs,
                                        dr_selected = selected_idxs, dr_rest = rest \<rparr>])
                           t')))"

text \<open>
  The loop \<open>while not stop_sampling\<close>, lines 126 to 139, with fuel: one unit for each
  round. The flag is false whenever a round starts. The rounds are recorded, one list
  of draws for each.
\<close>

fun sampling_loop ::
  "nat \<Rightarrow> domain_sampler \<Rightarrow> (int \<times> nat list) list \<times> nat list \<times> draw list list \<Rightarrow> tape
     \<Rightarrow> (py_error + ((nat list \<times> draw list list) \<times> tape)) option"
where
  "sampling_loop 0 s st t = None"
| "sampling_loop (Suc fuel) s (dd, final_idxs, rounds) t =
     (case random_sample (rds_domains s) (rds_n_domain s) t of
        Inl e \<Rightarrow> Some (Inl e)
      | Inr (selected_domains, t') \<Rightarrow>
          (case domain_loop (rds_n_img_per_domain s) selected_domains
                  (dd, final_idxs, False, []) t' of
             Inl e \<Rightarrow> Some (Inl e)
           | Inr ((dd', final_idxs', stop_sampling, draws), t'') \<Rightarrow>
               if stop_sampling then Some (Inr ((final_idxs', rounds @ [draws]), t''))
               else sampling_loop fuel s (dd', final_idxs', rounds @ [draws]) t''))"

text \<open>\<open>__iter__\<close> with its rounds, and \<open>__iter__\<close> as the code returns it.\<close>

definition balanced_rounds ::
  "nat \<Rightarrow> domain_sampler \<Rightarrow> tape
     \<Rightarrow> (py_error + ((nat list \<times> draw list list) \<times> tape)) option"
where
  "balanced_rounds fuel s t = sampling_loop fuel s (rds_domain_dict s, [], []) t"

definition balanced_iter ::
  "nat \<Rightarrow> domain_sampler \<Rightarrow> tape \<Rightarrow> (py_error + (nat list \<times> tape)) option"
where
  "balanced_iter fuel s t =
     map_option (map_sum id (\<lambda>((final_idxs, rounds), t'). (final_idxs, t')))
       (balanced_rounds fuel s t)"

text \<open>
  \<open>__init__\<close>, lines 101 to 119 and 160 to 178. The remainder of line 114 raises
  ZeroDivisionError when the label count, taken as default, is zero. Line 119 runs one
  pass and keeps its length; \<open>__iter__\<close> does not read \<open>self.length\<close>, which does not
  exist yet during that pass.
\<close>

definition balanced_init ::
  "(item \<Rightarrow> int) \<Rightarrow> nat \<Rightarrow> item list \<Rightarrow> int \<Rightarrow> int option \<Rightarrow> tape
     \<Rightarrow> (py_error + (domain_sampler \<times> tape)) option"
where
  "balanced_init label fuel data_source batch_size n_domain t =
     (let domain_dict = group_index label data_source;
          domains = map fst domain_dict;
          n_domain = (case n_domain of
                        None \<Rightarrow> int (length domains)
                      | Some n \<Rightarrow> if n \<le> 0 then int (length domains) else n)
      in if n_domain = 0 then Some (Inl ZeroDivisionError)
         else if batch_size mod n_domain \<noteq> 0 then Some (Inl AssertionError)
         else
           let s = \<lparr> rds_data_source = data_source, rds_domain_dict = domain_dict,
                     rds_domains = domains, rds_n_img_per_domain = batch_size div n_domain,
                     rds_batch_size = batch_size, rds_n_domain = n_domain, rds_length = 0 \<rparr>
           in (case balanced_iter fuel s t of
                 None \<Rightarrow> None
               | Some (Inl e) \<Rightarrow> Some (Inl e)
               | Some (Inr (final_idxs, t')) \<Rightarrow>
                   Some (Inr (s\<lparr> rds_length := int (length final_idxs) \<rparr>, t'))))"

definition RandomDomainSampler_init ::
  "nat \<Rightarrow> item list \<Rightarrow> int \<Rightarrow> int option \<Rightarrow> tape
     \<Rightarrow> (py_error + (domain_sampler \<times> tape)) option"
where
  "RandomDomainSampler_init = balanced_init camid"

definition RandomDatasetSampler_init ::
  "nat \<Rightarrow> item list \<Rightarrow> int \<Rightarrow> int option \<Rightarrow> tape
     \<Rightarrow> (py_error + (domain_sampler \<times> tape)) option"
where
  "RandomDatasetSampler_init = balanced_init dsetid"

definition balanced_len :: "domain_sampler \<Rightarrow> int" where
  "balanced_len s = rds_length s"

text \<open>
  Two notions for the statements about the recorded draws. \<open>replay dd draws\<close> is the
  dictionary of pools after the draws: each draw leaves its rest in the pool of its
  label. \<open>drawn_before draws i\<close> lists what the draws before the \<open>i\<close>-th took from the
  label of the \<open>i\<close>-th.
\<close>

definition replay :: "(int \<times> nat list) list \<Rightarrow> draw list \<Rightarrow> (int \<times> nat list) list" where
  "replay dd draws = foldl (\<lambda>d e. dict_set (dr_label e) (dr_rest e) d) dd draws"

definition drawn_before :: "draw list \<Rightarrow> nat \<Rightarrow> nat list" where
  "drawn_before draws i =
     concat (map dr_selected (filter (\<lambda>e. dr_label e = dr_label (draws ! i)) (take i draws)))"

text \<open>
  A data source for the examples: six items, the identities \<open>0, 0, 0, 1, 2, 2\<close> (the
  groups \<open>[0, 1, 2]\<close>, \<open>[3]\<close> and \<open>[4, 5]\<close>), the cameras \<open>0, 0, 1, 1, 1, 1\<close> and
  one dataset.
\<close>

definition six_items :: "item list" where
  "six_items =
     [\<lparr> img_path = ''a'', pid = 0, camid = 0, dsetid = 0 \<rparr>,
      \<lparr> img_path = ''b'', pid = 0, camid = 0, dsetid = 0 \<rparr>,
      \<lparr> img_path = ''c'', pid = 0, camid = 1, dsetid = 0 \<rparr>,
      \<lparr> img_path = ''d'', pid = 1, camid = 1, dsetid = 0 \<rparr>,
      \<lparr> img_path = ''e'', pid = 2, camid = 1, dsetid = 0 \<rparr>,
      \<lparr> img_path = ''f'', pid = 2, camid = 1, dsetid = 0 \<rparr>]"

text \<open>
  A second one: five items from three cameras, \<open>0, 0, 1, 1, 2\<close>, so that camera 2
  has the single image of position 4.
\<close>

definition five_items :: "item list" where
  "five_items =
     [\<lparr> img_path = ''a'', pid = 0, camid = 0, dsetid = 0 \<rparr>,
      \<lparr> img_path = ''b'', pid = 0, camid = 0, dsetid = 0 \<rparr>,
      \<lparr> img_path = ''c'', pid = 1, camid = 1, dsetid = 0 \<rparr>,
      \<lparr> img_path = ''d'', pid = 1, camid = 1, dsetid = 0 \<rparr>,
      \<lparr> img_path = ''e'', pid = 2, camid = 2, dsetid = 0 \<rparr>]"

subsection \<open>IterDistributedSampler\<close>

record 'a iter_distributed_sampler =
  ids_dataset :: "'a list"
  ids_batch_size :: int
  ids_num_replicas :: int
  ids_rank :: int
  ids_epoch :: int
  ids_shuffle :: bool
  ids_effect_bs :: int
  ids_total_size :: int
  ids_num_samples :: int
  ids_indices :: "nat list"

text \<open>
  The body of the loop over epochs, lines 230 to 241, which gives the shard of epoch
  \<open>ep\<close>: the name \<open>torch\<close> is looked up first, whatever \<open>shuffle\<close> is; the
  generator is seeded with \<open>ep\<close>, and the permutation is drawn from that generator.
\<close>

definition epoch_body ::
  "namespace \<Rightarrow> nat \<Rightarrow> bool \<Rightarrow> int \<Rightarrow> int \<Rightarrow> int \<Rightarrow> nat \<Rightarrow> py_error + nat list"
where
  "epoch_body ns n shuffle total_size rank num_replicas ep =
     (case ns ''torch'' of
        None \<Rightarrow> Inl (NameError ''torch'')
      | Some (Torch randperm) \<Rightarrow>
          (let indices = (if shuffle then py_prefix (randperm ep n) total_size else [0 ..< n]);
               indices = py_prefix indices total_size
           in py_slice indices rank total_size num_replicas)
      | Some _ \<Rightarrow> Inl AttributeError)"

text \<open>The loop \<open>for ep in range(total_epochs)\<close>, extending \<open>self.indices\<close>.\<close>

fun epoch_loop ::
  "namespace \<Rightarrow> nat \<Rightarrow> bool \<Rightarrow> int \<Rightarrow> int \<Rightarrow> int \<Rightarrow> nat list \<Rightarrow> nat list \<Rightarrow> py_error + nat list"
where
  "epoch_loop ns n shuffle total_size rank num_replicas [] acc = Inr acc"
| "epoch_loop ns n shuffle total_size rank num_replicas (ep # eps) acc =
     (case epoch_body ns n shuffle total_size rank num_replicas ep of
        Inl e \<Rightarrow> Inl e
      | Inr shard \<Rightarrow> epoch_loop ns n shuffle total_size rank num_replicas eps (acc @ shard))"

definition IterDistributedSampler_init ::
  "namespace \<Rightarrow> 'a list \<Rightarrow> int \<Rightarrow> int \<Rightarrow> int option \<Rightarrow> int option \<Rightarrow> bool
     \<Rightarrow> py_error + 'a iter_distributed_sampler"
where
  "IterDistributedSampler_init ns dataset total_epochs batch_size num_replicas rank shuffle =
     (case (case num_replicas of None \<Rightarrow> dist_world_size ns | Some v \<Rightarrow> Inr v) of
        Inl e \<Rightarrow> Inl e
      | Inr nr \<Rightarrow>
     (case (case rank of None \<Rightarrow> dist_rank ns | Some v \<Rightarrow> Inr v) of
        Inl e \<Rightarrow> Inl e
      | Inr rk \<Rightarrow>
     if \<not> 1 \<le> total_epochs then Inl AssertionError
     else
       let effect_bs = nr * batch_size in
       if effect_bs = 0 then Inl ZeroDivisionError
       else
         let total_size = int (length dataset) div effect_bs * effect_bs in
         if nr = 0 then Inl ZeroDivisionError
         else
           let num_samples = total_size div nr in
           (case epoch_loop ns (length dataset) shuffle total_size rk nr
                   [0 ..< nat total_epochs] [] of
              Inl e \<Rightarrow> Inl e
            | Inr indices \<Rightarrow>
                let num_samples = num_samples * total_epochs in
                if int (length indices) \<noteq> num_samples then Inl AssertionError
                else Inr \<lparr> ids_dataset = dataset, ids_batch_size = batch_size,
                           ids_num_replicas = nr, ids_rank = rk, ids_epoch = 0,
                           ids_shuffle = shuffle, ids_effect_bs = effect_bs,
                           ids_total_size = total_size, ids_num_samples = num_samples,
                           ids_indices = indices \<rparr>)))"

definition IterDistributedSampler_iter :: "'a iter_distributed_sampler \<Rightarrow> nat list" where
  "IterDistributedSampler_iter s = ids_indices s"

definition IterDistributedSampler_len :: "'a iter_distributed_sampler \<Rightarrow> int" where
  "IterDistributedSampler_len s = ids_num_samples s"

definition set_epoch :: "'a iter_distributed_sampler \<Rightarrow> int \<Rightarrow> 'a iter_distributed_sampler" where
  "set_epoch s epoch = s\<lparr>ids_epoch := epoch\<rparr>"

text \<open>
  The part of the emitted sequence that belongs to epoch \<open>e\<close>: the sequence is the
  concatenation of one shard per epoch, each of
  \<open>total_size // num_replicas\<close> indices.
\<close>

definition epoch_part :: "'a iter_distributed_sampler \<Rightarrow> nat \<Rightarrow> nat list" where
  "epoch_part s e =
     (let m = nat (ids_total_size s div ids_num_replicas s)
      in take m (drop (e * m) (IterDistributedSampler_iter s)))"

subsection \<open>InferenceSampler\<close>

record inference_sampler =
  inf_data_num :: int
  inf_common_size :: int
  inf_begin :: int
  inf_end :: int
  inf_indices :: "int list"

text \<open>Lines 263 to 279; \<open>range(b, e)\<close> is the list of the integers from \<open>b\<close> to \<open>e - 1\<close>.\<close>

definition InferenceSampler_init ::
  "namespace \<Rightarrow> int \<Rightarrow> int option \<Rightarrow> int option \<Rightarrow> py_error + inference_sampler"
where
  "InferenceSampler_init ns data_num num_replicas rank =
     (if \<not> 0 < data_num then Inl AssertionError
      else
     (case (case num_replicas of None \<Rightarrow> dist_world_size ns | Some v \<Rightarrow> Inr v) of
        Inl e \<Rightarrow> Inl e
      | Inr nr \<Rightarrow>
     (case (case rank of None \<Rightarrow> dist_rank ns | Some v \<Rightarrow> Inr v) of
        Inl e \<Rightarrow> Inl e
      | Inr rk \<Rightarrow>
     if nr = 0 then Inl ZeroDivisionError
     else
       let common_size = (data_num + nr - 1) div nr;
           b = common_size * rk;
           e = min (common_size * (rk + 1)) data_num
       in Inr \<lparr> inf_data_num = data_num, inf_common_size = common_size,
                 inf_begin = b, inf_end = e, inf_indices = [b .. e - 1] \<rparr>)))"

definition InferenceSampler_iter :: "inference_sampler \<Rightarrow> int list" where
  "InferenceSampler_iter s = inf_indices s"

definition InferenceSampler_len :: "inference_sampler \<Rightarrow> int" where
  "InferenceSampler_len s = int (length (inf_indices s))"


section \<open>Properties\<close>

subsection \<open>InferenceSampler: contiguous shards\<close>

lemma ceil_div_int:
  fixes dn nr :: int
  assumes nr: "0 < nr"
  shows "(dn + nr - 1) div nr = - ((- dn) div nr)"
proof (cases "dn mod nr = 0")
  case True
  then obtain q where q: "dn = nr * q" by auto
  have "(dn + nr - 1) div nr = (nr - 1 + nr * q) div nr" by (simp add: q algebra_simps)
  also have "\<dots> = (nr - 1) div nr + q" using nr by (subst div_mult_self2) auto
  also have "\<dots> = q" using nr by (simp add: div_pos_pos_trivial)
  finally have 1: "(dn + nr - 1) div nr = q" .
  have "- dn = nr * (- q)" by (simp add: q)
  then have "(- dn) div nr = - q" using nr by (metis less_irrefl nonzero_mult_div_cancel_left)
  with 1 show ?thesis by simp
next
  case False
  define r where "r = dn mod nr"
  define q where "q = dn div nr"
  have r: "0 < r" "r < nr" using False nr unfolding r_def
    by (smt (verit) pos_mod_sign, simp)
  have dn: "dn = nr * q + r" by (simp add: r_def q_def)
  have "(dn + nr - 1) div nr = (r - 1 + nr * (q + 1)) div nr" by (simp add: dn algebra_simps)
  also have "\<dots> = (r - 1) div nr + (q + 1)" using nr by (subst div_mult_self2) auto
  also have "\<dots> = q + 1" using nr r by (simp add: div_pos_pos_trivial)
  finally have 1: "(dn + nr - 1) div nr = q + 1" .
  have "(- dn) div nr = - q - 1"
    using nr False by (simp add: zdiv_zminus1_eq_if q_def)
  with 1 show ?thesis by simp
qed

lemma common_size_ceiling:
  "0 < nr \<Longrightarrow> (dn + nr - 1) div nr = \<lceil>real_of_int dn / real_of_int nr\<rceil>" for dn nr :: int
  by (simp add: ceiling_divide_eq_div ceil_div_int)

lemma common_size_bounds:
  fixes dn nr :: int
  assumes "0 < nr" "0 < dn"
  shows "0 < (dn + nr - 1) div nr" "dn \<le> (dn + nr - 1) div nr * nr"
proof -
  show "0 < (dn + nr - 1) div nr"
    using assms by (simp add: pos_imp_zdiv_pos_iff)
  have "(dn + nr - 1) div nr * nr = (dn + nr - 1) - (dn + nr - 1) mod nr"
    by (simp add: minus_mod_eq_div_mult)
  moreover have "(dn + nr - 1) mod nr \<le> nr - 1"
    using assms(1) by (smt (verit) pos_mod_bound)
  ultimately show "dn \<le> (dn + nr - 1) div nr * nr" by linarith
qed

lemma InferenceSampler_init_ok:
  "0 < dn \<Longrightarrow> nr \<noteq> 0 \<Longrightarrow>
   InferenceSampler_init ns dn (Some nr) (Some r) =
     Inr \<lparr> inf_data_num = dn, inf_common_size = (dn + nr - 1) div nr,
           inf_begin = (dn + nr - 1) div nr * r,
           inf_end = min ((dn + nr - 1) div nr * (r + 1)) dn,
           inf_indices = [(dn + nr - 1) div nr * r .. min ((dn + nr - 1) div nr * (r + 1)) dn - 1] \<rparr>"
  by (simp add: InferenceSampler_init_def Let_def)

lemma shards_cover:
  fixes cs dn nr :: int
  assumes cs: "0 < cs" and nr: "0 < nr" and cov: "dn \<le> cs * nr" and dn: "0 < dn"
  shows "(\<Union>r\<in>{0..<nr}. {cs * r ..< min (cs * (r + 1)) dn}) = {0..<dn}"
proof (intro set_eqI iffI)
  fix x assume "x \<in> (\<Union>r\<in>{0..<nr}. {cs * r ..< min (cs * (r + 1)) dn})"
  then obtain r where "0 \<le> r" "cs * r \<le> x" "x < dn" by auto
  moreover have "0 \<le> cs * r" using cs \<open>0 \<le> r\<close> by simp
  ultimately show "x \<in> {0..<dn}" by auto
next
  fix x assume x: "x \<in> {0..<dn}"
  define r where "r = x div cs"
  have "0 \<le> r" using x cs by (simp add: r_def pos_imp_zdiv_nonneg_iff)
  moreover have lo: "cs * r \<le> x"
    using cs mult_div_mod_eq [of cs x] pos_mod_sign [of cs x] unfolding r_def by linarith
  moreover have hi: "x < cs * (r + 1)"
  proof -
    have "cs * (r + 1) = cs * (x div cs) + cs" by (simp add: r_def distrib_left)
    then show ?thesis
      using cs mult_div_mod_eq [of cs x] pos_mod_bound [of cs x] by linarith
  qed
  moreover have "r < nr"
  proof (rule ccontr)
    assume "\<not> r < nr"
    then have "cs * nr \<le> cs * r" using cs by simp
    with lo cov x show False by auto
  qed
  ultimately show "x \<in> (\<Union>r\<in>{0..<nr}. {cs * r ..< min (cs * (r + 1)) dn})"
    using x by auto
qed

lemma shards_disjoint:
  fixes cs :: int
  assumes cs: "0 < cs" and rr: "r \<noteq> r'"
  shows "{cs * r ..< min (cs * (r + 1)) dn} \<inter> {cs * r' ..< min (cs * (r' + 1)) dn} = {}"
proof -
  have *: "\<And>a b::int. a < b \<Longrightarrow> cs * (a + 1) \<le> cs * b"
    using cs by simp
  from rr consider "r < r'" | "r' < r" by linarith
  then show ?thesis
  proof cases
    case 1 from *[OF 1] show ?thesis by auto
  next
    case 2 from *[OF 2] show ?thesis by auto
  qed
qed

lemma set_upto_less: "set [a .. b - 1] = {a ..< b}" for a b :: int
  by auto

text \<open>
  Claim C7. With \<open>data_num > 0\<close> and \<open>num_replicas > 0\<close> workers, construction
  succeeds for every rank, \<open>common_size\<close> is the ceiling of \<open>data_num / num_replicas\<close>,
  and the indices of rank \<open>r\<close> are the half-open range from \<open>common_size * r\<close> to
  \<open>min (common_size * (r + 1)) data_num\<close>. The shards of two different ranks are
  disjoint, and those of the ranks \<open>0, ..., num_replicas - 1\<close> cover exactly
  \<open>range(0, data_num)\<close>. A shard may be empty, and shards may differ in size.
\<close>

theorem InferenceSampler_shards:
  assumes dn: "0 < dn" and nr: "0 < nr"
  shows "(\<forall>r. \<exists>s. InferenceSampler_init ns dn (Some nr) (Some r) = Inr s
            \<and> inf_common_size s = \<lceil>real_of_int dn / real_of_int nr\<rceil>
            \<and> InferenceSampler_iter s
                = [inf_common_size s * r .. min (inf_common_size s * (r + 1)) dn - 1]
            \<and> set (InferenceSampler_iter s)
                = {inf_common_size s * r ..< min (inf_common_size s * (r + 1)) dn})
       \<and> (\<forall>r r' s s'. r \<noteq> r'
            \<longrightarrow> InferenceSampler_init ns dn (Some nr) (Some r) = Inr s
            \<longrightarrow> InferenceSampler_init ns dn (Some nr) (Some r') = Inr s'
            \<longrightarrow> set (InferenceSampler_iter s) \<inter> set (InferenceSampler_iter s') = {})
       \<and> (\<Union>r\<in>{0..<nr}. case InferenceSampler_init ns dn (Some nr) (Some r) of
                             Inl e \<Rightarrow> {} | Inr s \<Rightarrow> set (InferenceSampler_iter s)) = {0..<dn}"
proof -
  define cs where "cs = (dn + nr - 1) div nr"
  have nr0: "nr \<noteq> 0" using nr by simp
  note init = InferenceSampler_init_ok [OF dn nr0, of ns, folded cs_def]
  have cs: "0 < cs" "dn \<le> cs * nr"
    using common_size_bounds [OF nr dn] by (simp_all add: cs_def)
  have A: "\<forall>r. \<exists>s. InferenceSampler_init ns dn (Some nr) (Some r) = Inr s
            \<and> inf_common_size s = \<lceil>real_of_int dn / real_of_int nr\<rceil>
            \<and> InferenceSampler_iter s
                = [inf_common_size s * r .. min (inf_common_size s * (r + 1)) dn - 1]
            \<and> set (InferenceSampler_iter s)
                = {inf_common_size s * r ..< min (inf_common_size s * (r + 1)) dn}"
    using common_size_ceiling [OF nr, of dn]
    by (simp add: init InferenceSampler_iter_def set_upto_less cs_def del: set_upto)
  have B: "\<forall>r r' s s'. r \<noteq> r'
            \<longrightarrow> InferenceSampler_init ns dn (Some nr) (Some r) = Inr s
            \<longrightarrow> InferenceSampler_init ns dn (Some nr) (Some r') = Inr s'
            \<longrightarrow> set (InferenceSampler_iter s) \<inter> set (InferenceSampler_iter s') = {}"
  proof (intro allI impI)
    fix r r' :: int and s s'
    assume rr: "r \<noteq> r'"
      and s: "InferenceSampler_init ns dn (Some nr) (Some r) = Inr s"
      and s': "InferenceSampler_init ns dn (Some nr) (Some r') = Inr s'"
    have "set (InferenceSampler_iter s) = {cs * r ..< min (cs * (r + 1)) dn}"
      using s by (simp add: init InferenceSampler_iter_def set_upto_less del: set_upto) (auto)
    moreover have "set (InferenceSampler_iter s') = {cs * r' ..< min (cs * (r' + 1)) dn}"
      using s' by (simp add: init InferenceSampler_iter_def set_upto_less del: set_upto) (auto)
    ultimately show "set (InferenceSampler_iter s) \<inter> set (InferenceSampler_iter s') = {}"
      using shards_disjoint [OF cs(1) rr] by simp
  qed
  have "(\<Union>r\<in>{0..<nr}. case InferenceSampler_init ns dn (Some nr) (Some r) of
                             Inl e \<Rightarrow> {} | Inr s \<Rightarrow> set (InferenceSampler_iter s))
        = (\<Union>r\<in>{0..<nr}. {cs * r ..< min (cs * (r + 1)) dn})"
    by (simp add: init InferenceSampler_iter_def set_upto_less del: set_upto)
  then have C: "(\<Union>r\<in>{0..<nr}. case InferenceSampler_init ns dn (Some nr) (Some r) of
                             Inl e \<Rightarrow> {} | Inr s \<Rightarrow> set (InferenceSampler_iter s)) = {0..<dn}"
    using shards_cover [OF cs(1) nr cs(2) dn] by simp
  from A B C show ?thesis by blast
qed



text \<open>
  The example of the specification: ten items over three workers give the shards
  \<open>[0,4)\<close>, \<open>[4,8)\<close> and \<open>[8,10)\<close>.
\<close>

theorem InferenceSampler_shards_witness:
  "(0::int) < 10 \<and> (0::int) < 3
   \<and> (\<exists>s0 s1 s2.
         InferenceSampler_init module_globals 10 (Some 3) (Some 0) = Inr s0
       \<and> InferenceSampler_init module_globals 10 (Some 3) (Some 1) = Inr s1
       \<and> InferenceSampler_init module_globals 10 (Some 3) (Some 2) = Inr s2
       \<and> InferenceSampler_iter s0 = [0, 1, 2, 3]
       \<and> InferenceSampler_iter s1 = [4, 5, 6, 7]
       \<and> InferenceSampler_iter s2 = [8, 9]
       \<and> (0::int) \<noteq> 1
       \<and> set (InferenceSampler_iter s0) \<inter> set (InferenceSampler_iter s1) = {})"
proof -
  have h: "(0::int) < 10" "(0::int) < 3" by simp_all
  note T = InferenceSampler_shards [OF h, of module_globals]
  obtain s0 where s0: "InferenceSampler_init module_globals 10 (Some 3) (Some 0) = Inr s0"
    and i0: "InferenceSampler_iter s0 = [inf_common_size s0 * 0 .. min (inf_common_size s0 * (0 + 1)) 10 - 1]"
    and c0: "inf_common_size s0 = \<lceil>real_of_int 10 / real_of_int 3\<rceil>"
    using T by blast
  obtain s1 where s1: "InferenceSampler_init module_globals 10 (Some 3) (Some 1) = Inr s1"
    and i1: "InferenceSampler_iter s1 = [inf_common_size s1 * 1 .. min (inf_common_size s1 * (1 + 1)) 10 - 1]"
    and c1: "inf_common_size s1 = \<lceil>real_of_int 10 / real_of_int 3\<rceil>"
    using T by blast
  obtain s2 where s2: "InferenceSampler_init module_globals 10 (Some 3) (Some 2) = Inr s2"
    and i2: "InferenceSampler_iter s2 = [inf_common_size s2 * 2 .. min (inf_common_size s2 * (2 + 1)) 10 - 1]"
    and c2: "inf_common_size s2 = \<lceil>real_of_int 10 / real_of_int 3\<rceil>"
    using T by blast
  have c: "\<lceil>real_of_int 10 / real_of_int 3\<rceil> = 4" by simp
  have d: "set (InferenceSampler_iter s0) \<inter> set (InferenceSampler_iter s1) = {}"
    using T s0 s1 by (metis zero_neq_one)
  have "InferenceSampler_iter s0 = [0, 1, 2, 3]"
    using i0 c0 c by (simp add: upto.simps)
  moreover have "InferenceSampler_iter s1 = [4, 5, 6, 7]"
    using i1 c1 c by (simp add: upto.simps)
  moreover have "InferenceSampler_iter s2 = [8, 9]"
    using i2 c2 c by (simp add: upto.simps)
  ultimately show ?thesis using s0 s1 s2 d by simp
qed

subsection \<open>IterDistributedSampler: the epoch field\<close>

text \<open>
  Claim C9. \<open>set_epoch\<close> writes the field \<open>epoch\<close> and nothing else: what
  \<open>__iter__\<close> and \<open>__len__\<close> return is the same before and after the call.
\<close>

theorem set_epoch_frame:
  "IterDistributedSampler_iter (set_epoch s e) = IterDistributedSampler_iter s
   \<and> IterDistributedSampler_len (set_epoch s e) = IterDistributedSampler_len s
   \<and> set_epoch s e = s\<lparr>ids_epoch := e\<rparr>
   \<and> ids_epoch (set_epoch s e) = e"
  by (simp add: set_epoch_def IterDistributedSampler_iter_def IterDistributedSampler_len_def)

subsection \<open>The names torch and dist are unbound\<close>

lemma module_globals_unbound:
  "module_globals ''torch'' = None" "module_globals ''dist'' = None"
  by (simp_all add: module_globals_def)

lemma epoch_loop_unbound:
  "ns ''torch'' = None \<Longrightarrow> eps \<noteq> [] \<Longrightarrow>
   epoch_loop ns n sh ts rk nr eps acc = Inl (NameError ''torch'')"
  by (cases eps) (simp_all add: epoch_body_def)

lemma IterDistributedSampler_init_torch_unbound:
  assumes "ns ''torch'' = None" "1 \<le> te" "nr * bs \<noteq> 0"
  shows "IterDistributedSampler_init ns ds te bs (Some nr) (Some rk) sh = Inl (NameError ''torch'')"
proof -
  have "[0 ..< nat te] \<noteq> []" using assms(2) by simp
  with assms(1) have "epoch_loop ns (length ds) sh (int (length ds) div (nr * bs) * (nr * bs)) rk nr
      [0 ..< nat te] [] = Inl (NameError ''torch'')"
    by (rule epoch_loop_unbound)
  with assms(2,3) show ?thesis
    by (auto simp add: IterDistributedSampler_init_def Let_def)
qed

lemma IterDistributedSampler_init_dist_unbound:
  assumes "ns ''dist'' = None" "nro = None \<or> rko = None"
  shows "IterDistributedSampler_init ns ds te bs nro rko sh = Inl (NameError ''dist'')"
  using assms
  by (cases nro; cases rko)
     (simp_all add: IterDistributedSampler_init_def dist_world_size_def dist_rank_def)

lemma IterDistributedSampler_init_never:
  assumes "ns ''torch'' = None" "ns ''dist'' = None"
  shows "\<exists>e. IterDistributedSampler_init ns ds te bs nro rko sh = Inl e"
proof (cases "nro = None \<or> rko = None")
  case True
  with assms(2) show ?thesis by (blast intro: IterDistributedSampler_init_dist_unbound)
next
  case False
  then obtain nr rk where [simp]: "nro = Some nr" "rko = Some rk" by auto
  show ?thesis
  proof (cases "1 \<le> te \<and> nr * bs \<noteq> 0")
    case True
    then show ?thesis
      using assms(1) by (simp add: IterDistributedSampler_init_torch_unbound)
  next
    case False
    then show ?thesis by (auto simp add: IterDistributedSampler_init_def Let_def)
  qed
qed

lemma InferenceSampler_init_dist_unbound:
  assumes "ns ''dist'' = None" "0 < dn" "nro = None \<or> rko = None"
  shows "InferenceSampler_init ns dn nro rko = Inl (NameError ''dist'')"
  using assms
  by (cases nro; cases rko)
     (simp_all add: InferenceSampler_init_def dist_world_size_def dist_rank_def)

text \<open>
  Claim C10, amended. In the namespace of the module as it is written, \<open>torch\<close> and
  \<open>dist\<close> are unbound. So constructing an IterDistributedSampler never succeeds: with
  \<open>num_replicas\<close> and \<open>rank\<close> given, \<open>total_epochs \<ge> 1\<close> and a non-zero
  effective batch size, the first pass of the loop over epochs raises NameError at
  \<open>torch.Generator()\<close>, whatever \<open>shuffle\<close> is; with \<open>num_replicas\<close> or \<open>rank\<close>
  left unset, the lookup of \<open>dist\<close> raises NameError. For InferenceSampler the
  assertion on \<open>data_num\<close> comes first, so an unset \<open>num_replicas\<close> or \<open>rank\<close>
  raises NameError on \<open>dist\<close> when \<open>data_num > 0\<close>, and AssertionError
  otherwise.
\<close>

theorem missing_imports:
  "module_globals ''torch'' = None \<and> module_globals ''dist'' = None
   \<and> (1 \<le> te \<and> nr * bs \<noteq> 0 \<longrightarrow>
        IterDistributedSampler_init module_globals ds te bs (Some nr) (Some rk) sh
          = Inl (NameError ''torch''))
   \<and> (nro = None \<or> rko = None \<longrightarrow>
        IterDistributedSampler_init module_globals ds te bs nro rko sh
          = Inl (NameError ''dist''))
   \<and> (\<exists>e. IterDistributedSampler_init module_globals ds te bs nro rko sh = Inl e)
   \<and> (nro = None \<or> rko = None \<longrightarrow>
        InferenceSampler_init module_globals dn nro rko
          = (if 0 < dn then Inl (NameError ''dist'') else Inl AssertionError))"
proof -
  note u = module_globals_unbound
  have A: "1 \<le> te \<and> nr * bs \<noteq> 0 \<longrightarrow>
        IterDistributedSampler_init module_globals ds te bs (Some nr) (Some rk) sh
          = Inl (NameError ''torch'')"
    using u(1) by (simp add: IterDistributedSampler_init_torch_unbound)
  have B: "nro = None \<or> rko = None \<longrightarrow>
        IterDistributedSampler_init module_globals ds te bs nro rko sh
          = Inl (NameError ''dist'')"
    using u(2) by (simp add: IterDistributedSampler_init_dist_unbound)
  have C: "\<exists>e. IterDistributedSampler_init module_globals ds te bs nro rko sh = Inl e"
    using u by (rule IterDistributedSampler_init_never)
  have D: "nro = None \<or> rko = None \<longrightarrow>
        InferenceSampler_init module_globals dn nro rko
          = (if 0 < dn then Inl (NameError ''dist'') else Inl AssertionError)"
  proof (cases "0 < dn")
    case True
    then show ?thesis using u(2) by (simp add: InferenceSampler_init_dist_unbound)
  next
    case False
    then show ?thesis by (simp add: InferenceSampler_init_def)
  qed
  from u A B C D show ?thesis by (intro conjI)
qed

text \<open>Concrete constructions that meet the two unbound names.\<close>

theorem missing_imports_witness:
  "(1::int) \<le> 3 \<and> (2::int) * 4 \<noteq> 0
   \<and> IterDistributedSampler_init module_globals [0, 1, 2, 3, 4, 5, 6, 7, 8 :: nat] 3 4 (Some 2) (Some 0) False
        = Inl (NameError ''torch'')
   \<and> IterDistributedSampler_init module_globals [0, 1, 2 :: nat] 3 4 None (Some 0) False
        = Inl (NameError ''dist'')
   \<and> (0::int) < 10
   \<and> InferenceSampler_init module_globals 10 (Some 3) None = Inl (NameError ''dist'')"
  using missing_imports [of 3 2 4 "[0, 1, 2, 3, 4, 5, 6, 7, 8 :: nat]" 0 False None "Some 0" 10]
    missing_imports [of 3 2 4 "[0, 1, 2 :: nat]" 0 False None "Some 0" 10]
    missing_imports [of 3 2 4 "[0, 1, 2 :: nat]" 0 False "Some 3" None 10]
  by simp

text \<open>
  Claim C10 as stated fails where \<open>data_num\<close> is not positive: with both
  \<open>num_replicas\<close> and \<open>rank\<close> unset the error is the AssertionError of line 265,
  not a NameError.
\<close>

theorem InferenceSampler_assert_first:
  "InferenceSampler_init module_globals 0 None None = Inl AssertionError
   \<and> InferenceSampler_init module_globals 0 None None \<noteq> Inl (NameError ''dist'')"
  by (simp add: InferenceSampler_init_def)

subsection \<open>IterDistributedSampler with the name torch bound\<close>

lemma mset_concat_map_Cons:
  "mset (concat (map (\<lambda>r. a r # S r) rs)) = mset (map a rs) + mset (concat (map S rs))"
  by (induction rs) simp_all

lemma map_nth_upt_take: "k \<le> length xs \<Longrightarrow> map ((!) xs) [0 ..< k] = take k xs"
proof -
  assume k: "k \<le> length xs"
  have "take k xs = take k (map ((!) xs) [0 ..< length xs])" by (simp add: map_nth)
  also have "\<dots> = map ((!) xs) [0 ..< k]" using k by (simp add: take_map)
  finally show ?thesis by simp
qed

lemma stride_mset:
  "0 < k \<Longrightarrow> length xs = m * k \<Longrightarrow>
   mset (concat (map (\<lambda>r. map (\<lambda>j. xs ! (r + j * k)) [0 ..< m]) [0 ..< k])) = mset xs"
proof (induction m arbitrary: xs)
  case 0
  then show ?case by simp
next
  case (Suc m)
  have len: "length (drop k xs) = m * k" using Suc.prems by simp
  have kle: "k \<le> length xs" using Suc.prems by simp
  have step: "map (\<lambda>j. xs ! (r + j * k)) [0 ..< Suc m]
      = xs ! r # map (\<lambda>j. drop k xs ! (r + j * k)) [0 ..< m]" for r
  proof -
    have "map (\<lambda>j. xs ! (r + j * k)) [0 ..< Suc m]
        = xs ! r # map (\<lambda>j. xs ! (r + Suc j * k)) [0 ..< m]"
      by (simp add: upt_conv_Cons map_Suc_upt [symmetric] del: upt_Suc)
    moreover have "xs ! (r + Suc j * k) = drop k xs ! (r + j * k)" for j
      using kle by (simp add: add.commute add.left_commute)
    ultimately show ?thesis by simp
  qed
  have "mset (concat (map (\<lambda>r. map (\<lambda>j. xs ! (r + j * k)) [0 ..< Suc m]) [0 ..< k]))
      = mset (map ((!) xs) [0 ..< k])
        + mset (concat (map (\<lambda>r. map (\<lambda>j. drop k xs ! (r + j * k)) [0 ..< m]) [0 ..< k]))"
    unfolding step by (rule mset_concat_map_Cons)
  also have "map ((!) xs) [0 ..< k] = take k xs"
    using kle by (rule map_nth_upt_take)
  also have "mset (concat (map (\<lambda>r. map (\<lambda>j. drop k xs ! (r + j * k)) [0 ..< m]) [0 ..< k]))
      = mset (drop k xs)"
    using Suc.IH [OF Suc.prems(1) len] .
  finally show ?case by (simp flip: mset_append)
qed


lemma stride_nth:
  "0 < k \<Longrightarrow> i < m * k \<Longrightarrow>
   map (\<lambda>r. map (\<lambda>j. xs ! (r + j * k)) [0 ..< m]) [0 ..< k] ! (i mod k) ! (i div k) = xs ! i"
proof -
  assume k: "0 < k" and i: "i < m * k"
  have "i div k < m" using i k by (simp add: less_mult_imp_div_less)
  moreover have "i mod k < k" using k by simp
  ultimately show ?thesis by (simp add: mod_div_mult_eq)
qed

lemma slice_len_stride:
  fixes nr rk :: int
  assumes "0 \<le> rk" "rk < nr" "0 < m"
  shows "(int m * nr - rk - 1) div nr + 1 = int m"
proof -
  have eq: "int m * nr - rk - 1 = (nr - rk - 1) + nr * (int m - 1)"
    by (simp add: algebra_simps)
  have "(int m * nr - rk - 1) div nr = ((nr - rk - 1) + nr * (int m - 1)) div nr"
    by (simp only: eq)
  also have "\<dots> = (int m - 1) + (nr - rk - 1) div nr"
    using assms by (subst div_mult_self2) auto
  also have "(nr - rk - 1) div nr = 0"
    using assms by (simp add: div_pos_pos_trivial)
  finally show ?thesis by simp
qed

lemma py_slice_stride:
  assumes rk: "0 \<le> rk" "rk < nr" and len: "length xs = m * nat nr"
  shows "py_slice xs rk (int (length xs)) nr
           = Inr (map (\<lambda>j. xs ! (nat rk + j * nat nr)) [0 ..< m])"
proof (cases "m = 0")
  case True
  then show ?thesis using rk len
    by (simp add: py_slice_def slice_bound_def slice_len_def Let_def)
next
  case False
  have nr: "0 < nr" using rk by simp
  have n: "int (length xs) = int m * nr" using len nr by simp
  have "1 * nr \<le> int m * nr" using False nr by (intro mult_right_mono) auto
  then have lt: "rk < int m * nr" using rk by linarith
  have idx: "nat (rk + int j * nr) = nat rk + j * nat nr" for j
    using rk nr by (simp add: nat_add_distrib nat_mult_distrib)
  have sl: "(int m * nr - rk - 1) div nr + 1 = int m"
    using slice_len_stride [OF rk] False by simp
  show ?thesis
    using rk nr lt sl
    by (simp add: py_slice_def slice_bound_def slice_len_def Let_def n idx)
qed

lemma py_prefix_take: "0 \<le> k \<Longrightarrow> py_prefix xs k = take (nat k) xs"
  by (simp add: py_prefix_def slice_bound_def)

lemma epoch_loop_concat:
  "(\<And>e. e \<in> set eps \<Longrightarrow> epoch_body ns n sh ts rk nr e = Inr (f e)) \<Longrightarrow>
   epoch_loop ns n sh ts rk nr eps acc = Inr (acc @ concat (map f eps))"
  by (induction eps arbitrary: acc) simp_all

lemma take_drop_concat_map:
  "(\<And>x. x \<in> set xs \<Longrightarrow> length (f x) = m) \<Longrightarrow> i < length xs \<Longrightarrow>
   take m (drop (i * m) (concat (map f xs))) = f (xs ! i)"
proof (induction xs arbitrary: i)
  case Nil
  then show ?case by simp
next
  case (Cons x xs)
  show ?case
  proof (cases i)
    case 0
    then show ?thesis using Cons.prems by simp
  next
    case (Suc j)
    then show ?thesis using Cons.prems Cons.IH [of j] by simp
  qed
qed

lemma length_concat_map_const:
  "(\<And>x. x \<in> set xs \<Longrightarrow> length (f x) = m) \<Longrightarrow> length (concat (map f xs)) = length xs * m"
  by (induction xs) simp_all


lemma total_size_facts:
  fixes nr bs :: int and n :: nat
  assumes "0 < bs" "0 < nr"
  defines "ts \<equiv> int n div (nr * bs) * (nr * bs)"
  shows "0 \<le> ts" "ts \<le> int n" "0 \<le> ts div nr" "nat ts = nat (ts div nr) * nat nr"
proof -
  have ebs: "0 < nr * bs" using assms by simp
  show 0: "0 \<le> ts" unfolding ts_def using ebs
    by (simp add: pos_imp_zdiv_nonneg_iff)
  show "ts \<le> int n" unfolding ts_def using ebs
    by (metis div_mult_mod_eq add_increasing2 order_refl pos_mod_sign)
  have q: "0 \<le> int n div (nr * bs)" using ebs by (simp add: pos_imp_zdiv_nonneg_iff)
  have "ts = (int n div (nr * bs) * bs) * nr" by (simp add: ts_def mult.assoc mult.commute)
  then have d: "ts div nr = int n div (nr * bs) * bs" using assms(2) by simp
  show "0 \<le> ts div nr" using d q assms(1) by simp
  have "ts = (ts div nr) * nr" using d \<open>ts = (int n div (nr * bs) * bs) * nr\<close> by simp
  then have "nat ts = nat ((ts div nr) * nr)" by simp
  also have "\<dots> = nat (ts div nr) * nat nr"
    using \<open>0 \<le> ts div nr\<close> by (simp add: nat_mult_distrib)
  finally show "nat ts = nat (ts div nr) * nat nr" .
qed

lemma epoch_body_valid:
  fixes n :: nat and e :: nat and sh :: bool
  assumes torch: "ns ''torch'' = Some (Torch rp)"
    and len: "length (rp e n) = n"
    and bs: "0 < bs" and nr: "0 < nr" and rk: "0 \<le> rk" "rk < nr"
  defines "ts \<equiv> int n div (nr * bs) * (nr * bs)"
  defines "xs \<equiv> take (nat ts) (if sh then rp e n else [0 ..< n])"
  shows "epoch_body ns n sh ts rk nr e
           = Inr (map (\<lambda>j. xs ! (nat rk + j * nat nr)) [0 ..< nat (ts div nr)])"
    and "py_slice xs rk ts nr
           = Inr (map (\<lambda>j. xs ! (nat rk + j * nat nr)) [0 ..< nat (ts div nr)])"
proof -
  note f = total_size_facts [OF bs nr, of n, folded ts_def]
  have lxs: "length xs = nat ts" using f(1,2) len by (simp add: xs_def)
  then have lxs': "length xs = nat (ts div nr) * nat nr" using f(4) by simp
  have its: "int (length xs) = ts" using lxs f(1) by simp
  from py_slice_stride [OF rk lxs']
  show sl: "py_slice xs rk ts nr
           = Inr (map (\<lambda>j. xs ! (nat rk + j * nat nr)) [0 ..< nat (ts div nr)])"
    by (simp only: its)
  have "epoch_body ns n sh ts rk nr e = py_slice xs rk ts nr"
    using f(1) by (simp add: epoch_body_def torch Let_def py_prefix_take xs_def)
  with sl show "epoch_body ns n sh ts rk nr e
           = Inr (map (\<lambda>j. xs ! (nat rk + j * nat nr)) [0 ..< nat (ts div nr)])"
    by simp
qed

lemma IterDistributedSampler_init_valid:
  fixes ds :: "'a list" and sh :: bool
  assumes torch: "ns ''torch'' = Some (Torch rp)"
    and len: "\<And>e. length (rp e (length ds)) = length ds"
    and te: "1 \<le> te" and bs: "0 < bs" and nr: "0 < nr" and rk: "0 \<le> rk" "rk < nr"
  defines "ts \<equiv> int (length ds) div (nr * bs) * (nr * bs)"
  shows "\<exists>s. IterDistributedSampler_init ns ds te bs (Some nr) (Some rk) sh = Inr s
           \<and> ids_total_size s = ts \<and> ids_num_replicas s = nr
           \<and> ids_num_samples s = ts div nr * te
           \<and> ids_indices s = concat (map (\<lambda>e. map
                 (\<lambda>j. take (nat ts) (if sh then rp e (length ds) else [0 ..< length ds])
                        ! (nat rk + j * nat nr)) [0 ..< nat (ts div nr)]) [0 ..< nat te])"
proof -
  let ?f = "\<lambda>e. map (\<lambda>j. take (nat ts) (if sh then rp e (length ds) else [0 ..< length ds])
                        ! (nat rk + j * nat nr)) [0 ..< nat (ts div nr)]"
  note f = total_size_facts [OF bs nr, of "length ds", folded ts_def]
  have body: "epoch_body ns (length ds) sh ts rk nr e = Inr (?f e)" for e
    using epoch_body_valid(1) [where ns = ns and e = e and sh = sh, OF torch len bs nr rk]
    by (simp add: ts_def)
  have loop: "epoch_loop ns (length ds) sh ts rk nr [0 ..< nat te] [] = Inr (concat (map ?f [0 ..< nat te]))"
    using epoch_loop_concat [where f = ?f and acc = "[]", OF body] by simp
  have "length (concat (map ?f [0 ..< nat te])) = length [0 ..< nat te] * nat (ts div nr)"
    by (rule length_concat_map_const) simp
  then have l: "int (length (concat (map ?f [0 ..< nat te]))) = ts div nr * te"
    using te f(3) by simp
  have ebs: "nr * bs \<noteq> 0" using bs nr by simp
  show ?thesis
    using te ebs nr loop l
    by (simp add: IterDistributedSampler_init_def Let_def ts_def [symmetric])
qed

lemma IterDistributedSampler_init_length:
  "IterDistributedSampler_init ns ds te bs nro rko sh = Inr s \<Longrightarrow>
   int (length (IterDistributedSampler_iter s)) = IterDistributedSampler_len s
   \<and> IterDistributedSampler_len s = ids_total_size s div ids_num_replicas s * te
   \<and> ids_total_size s
       = int (length ds) div (ids_num_replicas s * bs) * (ids_num_replicas s * bs)"
  by (auto simp add: IterDistributedSampler_init_def Let_def IterDistributedSampler_iter_def
      IterDistributedSampler_len_def split: sum.splits if_splits)

lemma epoch_part_valid:
  fixes ds :: "'a list"
  assumes torch: "ns ''torch'' = Some (Torch rp)"
    and len: "\<And>e. length (rp e (length ds)) = length ds"
    and te: "1 \<le> te" and bs: "0 < bs" and nr: "0 < nr" and rk: "0 \<le> rk" "rk < nr"
    and e: "e < nat te"
  defines "ts \<equiv> int (length ds) div (nr * bs) * (nr * bs)"
  shows "\<exists>s. IterDistributedSampler_init ns ds te bs (Some nr) (Some rk) sh = Inr s
           \<and> ids_total_size s = ts
           \<and> int (length (IterDistributedSampler_iter s)) = ts div nr * te
           \<and> IterDistributedSampler_len s = ts div nr * te
           \<and> epoch_part s e = map
                 (\<lambda>j. take (nat ts) (if sh then rp e (length ds) else [0 ..< length ds])
                        ! (nat rk + j * nat nr)) [0 ..< nat (ts div nr)]
           \<and> py_slice (take (nat ts) (if sh then rp e (length ds) else [0 ..< length ds]))
                 rk ts nr = Inr (epoch_part s e)"
proof -
  let ?f = "\<lambda>e. map (\<lambda>j. take (nat ts) (if sh then rp e (length ds) else [0 ..< length ds])
                        ! (nat rk + j * nat nr)) [0 ..< nat (ts div nr)]"
  from IterDistributedSampler_init_valid [where ns = ns and sh = sh, OF torch len te bs nr rk]
  obtain s where s: "IterDistributedSampler_init ns ds te bs (Some nr) (Some rk) sh = Inr s"
    and t: "ids_total_size s = ts" and r: "ids_num_replicas s = nr"
    and n: "ids_num_samples s = ts div nr * te"
    and i: "ids_indices s = concat (map ?f [0 ..< nat te])"
    unfolding ts_def by blast
  have "take (nat (ts div nr)) (drop (e * nat (ts div nr)) (concat (map ?f [0 ..< nat te])))
      = ?f ([0 ..< nat te] ! e)"
    by (rule take_drop_concat_map) (use e in simp_all)
  then have ep: "epoch_part s e = ?f e"
    using e by (simp add: epoch_part_def t r i IterDistributedSampler_iter_def)
  have sl: "py_slice (take (nat ts) (if sh then rp e (length ds) else [0 ..< length ds]))
                 rk ts nr = Inr (?f e)"
    using epoch_body_valid(2) [where ns = ns and e = e and sh = sh, OF torch len bs nr rk]
    by (simp add: ts_def)
  from IterDistributedSampler_init_length [OF s]
  have "int (length (IterDistributedSampler_iter s)) = ts div nr * te"
    "IterDistributedSampler_len s = ts div nr * te"
    by (simp_all add: t r)
  with s t ep sl show ?thesis by auto
qed

text \<open>
  What the constructor computes once the name \<open>torch\<close> is bound. Let \<open>torch\<close> be
  bound to a library whose \<open>randperm\<close> yields, for every seed, a permutation of
  \<open>0, ..., len(dataset) - 1\<close>, and let \<open>total_epochs \<ge> 1\<close>, \<open>batch_size > 0\<close>,
  \<open>num_replicas > 0\<close> and \<open>shuffle = True\<close>. Then for every rank
  \<open>0 \<le> rank < num_replicas\<close> construction succeeds with
  \<open>total_size = len(dataset) // (num_replicas * batch_size) * (num_replicas * batch_size)\<close>,
  emits exactly \<open>total_size // num_replicas * total_epochs\<close> indices, and the part of
  epoch \<open>e\<close> is the strided slice \<open>[rank : total_size : num_replicas]\<close> of the
  permutation of seed \<open>e\<close> cut to \<open>total_size\<close>: nothing but the epoch number
  and the parameters enters it. For each epoch the shards of the ranks
  \<open>0, ..., num_replicas - 1\<close> together hold exactly the elements of that cut
  permutation, without a duplicate, element \<open>i\<close> of it being element \<open>i div
  num_replicas\<close> of the shard of rank \<open>i mod num_replicas\<close>. Whatever the rank, a
  construction that returns has emitted \<open>total_size // num_replicas * total_epochs\<close>
  indices: the assertion of line 247 turns any other length into an error.
\<close>

lemma IterDistributedSampler_init_bound:
  fixes ds :: "'a list"
  assumes torch: "ns ''torch'' = Some (Torch rp)"
    and perm: "\<forall>e. mset (rp e (length ds)) = mset [0 ..< length ds]"
    and te: "1 \<le> te" and bs: "0 < bs" and nr: "0 < nr"
  shows "(\<forall>rk. 0 \<le> rk \<and> rk < nr \<longrightarrow>
            (\<exists>s. IterDistributedSampler_init ns ds te bs (Some nr) (Some rk) True = Inr s
               \<and> ids_total_size s = int (length ds) div (nr * bs) * (nr * bs)
               \<and> int (length (IterDistributedSampler_iter s)) = ids_total_size s div nr * te
               \<and> IterDistributedSampler_len s = ids_total_size s div nr * te
               \<and> (\<forall>e < nat te.
                     py_slice (take (nat (ids_total_size s)) (rp e (length ds)))
                       rk (ids_total_size s) nr = Inr (epoch_part s e))))
       \<and> (\<forall>e < nat te.
            mset (concat (map (\<lambda>r.
                    case IterDistributedSampler_init ns ds te bs (Some nr) (Some (int r)) True of
                      Inl err \<Rightarrow> [] | Inr s \<Rightarrow> epoch_part s e) [0 ..< nat nr]))
              = mset (take (nat (int (length ds) div (nr * bs) * (nr * bs))) (rp e (length ds)))
          \<and> distinct (concat (map (\<lambda>r.
                    case IterDistributedSampler_init ns ds te bs (Some nr) (Some (int r)) True of
                      Inl err \<Rightarrow> [] | Inr s \<Rightarrow> epoch_part s e) [0 ..< nat nr]))
          \<and> (\<forall>i < nat (int (length ds) div (nr * bs) * (nr * bs)).
                take (nat (int (length ds) div (nr * bs) * (nr * bs))) (rp e (length ds)) ! i
                  = (case IterDistributedSampler_init ns ds te bs (Some nr)
                            (Some (int (i mod nat nr))) True of
                       Inl err \<Rightarrow> i | Inr s \<Rightarrow> epoch_part s e ! (i div nat nr))))
       \<and> (\<forall>rk sh s. IterDistributedSampler_init ns ds te bs (Some nr) (Some rk) sh = Inr s \<longrightarrow>
            int (length (IterDistributedSampler_iter s))
              = int (length ds) div (nr * bs) * (nr * bs) div nr * te)"
proof -
  define ts where "ts = int (length ds) div (nr * bs) * (nr * bs)"
  define m where "m = nat (ts div nr)"
  define k where "k = nat nr"
  define xs where "xs = (\<lambda>e. take (nat ts) (rp e (length ds)))"
  have len: "length (rp e (length ds)) = length ds" for e
    using perm by (metis length_upt mset_eq_length minus_nat.diff_0)
  note f = total_size_facts [OF bs nr, of "length ds", folded ts_def]
  have k: "0 < k" using nr by (simp add: k_def)
  have lxs: "length (xs e) = m * k" for e
    using f(1,2,4) len by (simp add: xs_def m_def k_def)
  have part: "\<exists>s. IterDistributedSampler_init ns ds te bs (Some nr) (Some rk) True = Inr s
           \<and> ids_total_size s = ts
           \<and> int (length (IterDistributedSampler_iter s)) = ts div nr * te
           \<and> IterDistributedSampler_len s = ts div nr * te
           \<and> epoch_part s e = map (\<lambda>j. xs e ! (nat rk + j * k)) [0 ..< m]
           \<and> py_slice (xs e) rk ts nr = Inr (epoch_part s e)"
    if "0 \<le> rk" "rk < nr" "e < nat te" for rk e
    using epoch_part_valid [where ns = ns and sh = True, OF torch len te bs nr that]
    by (simp add: ts_def xs_def m_def k_def)
  have A: "\<forall>rk. 0 \<le> rk \<and> rk < nr \<longrightarrow>
            (\<exists>s. IterDistributedSampler_init ns ds te bs (Some nr) (Some rk) True = Inr s
               \<and> ids_total_size s = ts
               \<and> int (length (IterDistributedSampler_iter s)) = ids_total_size s div nr * te
               \<and> IterDistributedSampler_len s = ids_total_size s div nr * te
               \<and> (\<forall>e < nat te.
                     py_slice (take (nat (ids_total_size s)) (rp e (length ds)))
                       rk (ids_total_size s) nr = Inr (epoch_part s e)))"
  proof (intro allI impI)
    fix rk assume rk: "0 \<le> rk \<and> rk < nr"
    have e0: "0 < nat te" using te by simp
    have rk1: "0 \<le> rk" and rk2: "rk < nr" using rk by simp_all
    from part [OF rk1 rk2 e0] obtain s
      where s: "IterDistributedSampler_init ns ds te bs (Some nr) (Some rk) True = Inr s"
        and t: "ids_total_size s = ts"
        and l: "int (length (IterDistributedSampler_iter s)) = ts div nr * te"
          "IterDistributedSampler_len s = ts div nr * te"
      by blast
    have "py_slice (take (nat ts) (rp e (length ds))) rk ts nr = Inr (epoch_part s e)"
      if "e < nat te" for e
      using part [OF rk1 rk2 that] s by (auto simp add: xs_def)
    with s t l show "\<exists>s. IterDistributedSampler_init ns ds te bs (Some nr) (Some rk) True = Inr s
               \<and> ids_total_size s = ts
               \<and> int (length (IterDistributedSampler_iter s)) = ids_total_size s div nr * te
               \<and> IterDistributedSampler_len s = ids_total_size s div nr * te
               \<and> (\<forall>e < nat te.
                     py_slice (take (nat (ids_total_size s)) (rp e (length ds)))
                       rk (ids_total_size s) nr = Inr (epoch_part s e))"
      by auto
  qed
  have shard: "\<exists>s. IterDistributedSampler_init ns ds te bs (Some nr) (Some (int r)) True = Inr s
                 \<and> epoch_part s e = map (\<lambda>j. xs e ! (r + j * k)) [0 ..< m]"
    if "r < k" "e < nat te" for r e
  proof -
    have "0 \<le> int r" "int r < nr" using that(1) by (simp_all add: k_def)
    from part [OF this that(2)] show ?thesis by auto
  qed
  have B: "mset (concat (map (\<lambda>r.
                    case IterDistributedSampler_init ns ds te bs (Some nr) (Some (int r)) True of
                      Inl err \<Rightarrow> [] | Inr s \<Rightarrow> epoch_part s e) [0 ..< nat nr]))
              = mset (xs e)
          \<and> distinct (concat (map (\<lambda>r.
                    case IterDistributedSampler_init ns ds te bs (Some nr) (Some (int r)) True of
                      Inl err \<Rightarrow> [] | Inr s \<Rightarrow> epoch_part s e) [0 ..< nat nr]))
          \<and> (\<forall>i < nat ts. xs e ! i
                  = (case IterDistributedSampler_init ns ds te bs (Some nr)
                            (Some (int (i mod nat nr))) True of
                       Inl err \<Rightarrow> i | Inr s \<Rightarrow> epoch_part s e ! (i div nat nr)))"
    if e: "e < nat te" for e
  proof -
    let ?sh = "\<lambda>r. case IterDistributedSampler_init ns ds te bs (Some nr) (Some (int r)) True of
                      Inl err \<Rightarrow> [] | Inr s \<Rightarrow> epoch_part s e"
    have "?sh r = map (\<lambda>j. xs e ! (r + j * k)) [0 ..< m]" if "r < k" for r
      using shard [OF that e] by auto
    then have "map ?sh [0 ..< k] = map (\<lambda>r. map (\<lambda>j. xs e ! (r + j * k)) [0 ..< m]) [0 ..< k]"
      by simp
    then have c: "concat (map ?sh [0 ..< nat nr])
        = concat (map (\<lambda>r. map (\<lambda>j. xs e ! (r + j * k)) [0 ..< m]) [0 ..< k])"
      by (simp only: k_def)
    have ms: "mset (concat (map ?sh [0 ..< nat nr])) = mset (xs e)"
      unfolding c using k lxs by (rule stride_mset)
    have "distinct (rp e (length ds))"
      using perm by (metis distinct_upt mset_eq_imp_distinct_iff)
    then have "distinct (xs e)" by (simp add: xs_def)
    with ms have di: "distinct (concat (map ?sh [0 ..< nat nr]))"
      by (metis mset_eq_imp_distinct_iff)
    have el: "xs e ! i
        = (case IterDistributedSampler_init ns ds te bs (Some nr)
                  (Some (int (i mod nat nr))) True of
             Inl err \<Rightarrow> i | Inr s \<Rightarrow> epoch_part s e ! (i div nat nr))"
      if i: "i < nat ts" for i
    proof -
      have ik: "i mod k < k" using k by simp
      have "i < m * k" using i f(4) by (simp add: m_def k_def)
      then have "i div k < m" using k by (simp add: less_mult_imp_div_less)
      then have "map (\<lambda>j. xs e ! (i mod k + j * k)) [0 ..< m] ! (i div k) = xs e ! i"
        by (simp add: mod_div_mult_eq)
      then show ?thesis
        using shard [OF ik e] by (auto simp add: k_def)
    qed
    from ms di el show ?thesis by blast
  qed
  have C: "\<forall>rk sh s. IterDistributedSampler_init ns ds te bs (Some nr) (Some rk) sh = Inr s \<longrightarrow>
            int (length (IterDistributedSampler_iter s)) = ts div nr * te"
  proof (intro allI impI)
    fix rk sh s
    assume s: "IterDistributedSampler_init ns ds te bs (Some nr) (Some rk) sh = Inr s"
    then have "ids_num_replicas s = nr"
      by (auto simp add: IterDistributedSampler_init_def Let_def split: sum.splits if_splits)
    with IterDistributedSampler_init_length [OF s]
    show "int (length (IterDistributedSampler_iter s)) = ts div nr * te"
      by (simp add: ts_def)
  qed
  from A B C show ?thesis
    unfolding ts_def xs_def by blast
qed

lemma mset_rotate_eq: "mset (rotate n xs) = mset xs"
proof (induction n)
  case 0
  show ?case by simp
next
  case (Suc n)
  have "mset (rotate1 ys) = mset ys" for ys :: "'a list" by (cases ys) simp_all
  with Suc show ?case by simp
qed

text \<open>
  Nine items, two epochs, batch size two, two replicas, the permutation of seed \<open>e\<close>
  being the rotation by \<open>e\<close>: \<open>total_size\<close> is eight and rank 0 emits
  \<open>0, 2, 4, 6\<close> then \<open>1, 3, 5, 7\<close>.
\<close>

lemma IterDistributedSampler_init_bound_example:
  "(\<lambda>name. if name = ''torch'' then Some (Torch (\<lambda>e n. rotate e [0 ..< n])) else None) ''torch''
     = Some (Torch (\<lambda>e n. rotate e [0 ..< n]))
   \<and> (\<forall>e. mset (rotate e [0 ..< length [0, 1, 2, 3, 4, 5, 6, 7, 8 :: nat]])
            = mset [0 ..< length [0, 1, 2, 3, 4, 5, 6, 7, 8 :: nat]])
   \<and> (1::int) \<le> 2 \<and> (0::int) < 2 \<and> (0::int) \<le> 0
   \<and> (\<exists>s. IterDistributedSampler_init
            (\<lambda>name. if name = ''torch'' then Some (Torch (\<lambda>e n. rotate e [0 ..< n])) else None)
            [0, 1, 2, 3, 4, 5, 6, 7, 8 :: nat] 2 2 (Some 2) (Some 0) True = Inr s
          \<and> ids_total_size s = 8
          \<and> IterDistributedSampler_len s = 8
          \<and> IterDistributedSampler_iter s = [0, 2, 4, 6, 1, 3, 5, 7]
          \<and> epoch_part s 1 = [1, 3, 5, 7])"
proof -
  let ?ns = "\<lambda>name. if name = ''torch'' then Some (Torch (\<lambda>e n. rotate e [0 ..< n])) else None"
  let ?ds = "[0, 1, 2, 3, 4, 5, 6, 7, 8 :: nat]"
  have h1: "?ns ''torch'' = Some (Torch (\<lambda>e n. rotate e [0 ..< n]))" by simp
  have h2: "\<forall>e. mset (rotate e [0 ..< length ?ds]) = mset [0 ..< length ?ds]"
    by (simp only: mset_rotate_eq) simp
  have h3: "(1::int) \<le> 2" "(0::int) < 2" by simp_all
  note T = IterDistributedSampler_init_bound [where ns = ?ns and ds = ?ds, OF h1 h2 h3(1) h3(2) h3(2)]
  have r: "(0::int) \<le> 0 \<and> (0::int) < 2" by simp
  from T r obtain s where s: "IterDistributedSampler_init ?ns ?ds 2 2 (Some 2) (Some 0) True = Inr s"
    and t: "ids_total_size s = int (length ?ds) div (2 * 2) * (2 * 2)"
    and l: "IterDistributedSampler_len s = ids_total_size s div 2 * 2"
    by blast
  have i: "map_sum id IterDistributedSampler_iter
             (IterDistributedSampler_init ?ns ?ds 2 2 (Some 2) (Some 0) True)
           = Inr [0, 2, 4, 6, 1, 3, 5, 7]"
    by code_simp
  have t8: "ids_total_size s = 8" using t by simp
  have "IterDistributedSampler_iter s = [0, 2, 4, 6, 1, 3, 5, 7]" using i s by simp
  moreover from this have "epoch_part s 1 = [1, 3, 5, 7]"
    using s t8 by (auto simp add: epoch_part_def IterDistributedSampler_init_def Let_def
        split: sum.splits if_splits)
  moreover have "IterDistributedSampler_len s = 8" using l t8 by simp
  ultimately show ?thesis using s t8 h2 by auto
qed

subsection \<open>IterDistributedSampler in the module as it is\<close>

text \<open>
  Claim C5. The module binds no name \<open>torch\<close>, so the shards are never made. With a
  dataset of nine items, two epochs, batch size two and two replicas, construction for
  rank 0 and for rank 1 stops at \<open>torch.Generator()\<close>, line 231, with a NameError:
  there is no shard of any epoch to take a union of, and no emitted length.
\<close>

theorem IterDistributedSampler_no_shards:
  "IterDistributedSampler_init module_globals [0 ..< 9] 2 2 (Some 2) (Some 0) True
     = Inl (NameError ''torch'')
   \<and> IterDistributedSampler_init module_globals [0 ..< 9] 2 2 (Some 2) (Some 1) True
     = Inl (NameError ''torch'')"
  by (intro conjI; code_simp)


subsection \<open>Dictionaries\<close>

lemma dict_get_Nil [simp]: "dict_get [] k = []"
  by (simp add: dict_get_def)

lemma dict_get_Cons:
  "dict_get ((k', vs) # d) k = (if k = k' then vs else dict_get d k)"
  by (simp add: dict_get_def)

lemma dict_get_dict_set:
  "dict_get (dict_set k vs d) k' = (if k' = k then vs else dict_get d k')"
  by (induction d) (auto simp add: dict_get_Cons)

lemma dict_get_dict_append:
  "dict_get (dict_append k v d) k' = (if k' = k then dict_get d k @ [v] else dict_get d k')"
  by (induction d) (auto simp add: dict_get_Cons)

lemma keys_dict_set:
  "k \<in> fst ` set d \<Longrightarrow> map fst (dict_set k vs d) = map fst d"
  by (induction d) force+

lemma keys_dict_append:
  "map fst (dict_append k v d) = (if k \<in> fst ` set d then map fst d else map fst d @ [k])"
  by (induction d) force+

lemma dict_get_missing: "k \<notin> fst ` set d \<Longrightarrow> dict_get d k = []"
  by (induction d) (auto simp add: dict_get_Cons)

subsection \<open>The grouping scan\<close>

lemma group_index_Nil [simp]: "group_index label [] = []"
  by (simp add: group_index_def)

lemma group_index_snoc:
  "group_index label (ds @ [x]) = dict_append (label x) (length ds) (group_index label ds)"
  by (simp add: group_index_def enumerate_append_eq)

lemma group_index_get:
  "dict_get (group_index label ds) l = filter (\<lambda>i. label (ds ! i) = l) [0 ..< length ds]"
proof (induction ds rule: rev_induct)
  case Nil
  show ?case by simp
next
  case (snoc x ds)
  have "filter (\<lambda>i. label ((ds @ [x]) ! i) = l) [0 ..< length ds]
      = filter (\<lambda>i. label (ds ! i) = l) [0 ..< length ds]"
    by (rule filter_cong) (simp_all add: nth_append)
  then show ?case
    using snoc by (auto simp add: group_index_snoc dict_get_dict_append)
qed

lemma group_index_keys:
  "distinct (map fst (group_index label ds)) \<and> set (map fst (group_index label ds)) = label ` set ds"
proof (induction ds rule: rev_induct)
  case Nil
  show ?case by simp
next
  case (snoc x ds)
  then show ?case by (auto simp add: group_index_snoc keys_dict_append)
qed

lemma group_index_distinct: "distinct (dict_get (group_index label ds) l)"
  by (simp add: group_index_get)

lemma group_index_mem:
  "i \<in> set (dict_get (group_index label ds) l) \<longleftrightarrow> i < length ds \<and> label (ds ! i) = l"
  by (auto simp add: group_index_get)

lemma group_index_nonempty:
  assumes "l \<in> set (map fst (group_index label ds))"
  shows "dict_get (group_index label ds) l \<noteq> []"
proof -
  from assms have "l \<in> label ` set ds" using group_index_keys [of label ds] by simp
  then obtain i where "i < length ds" "label (ds ! i) = l" by (auto simp add: in_set_conv_nth)
  then have "i \<in> set (dict_get (group_index label ds) l)" by (simp add: group_index_mem)
  then show ?thesis by auto
qed

lemma length_group_index:
  "length (group_index label ds) = card (label ` set ds)"
proof -
  have "length (group_index label ds) = length (map fst (group_index label ds))" by simp
  also have "\<dots> = card (set (map fst (group_index label ds)))"
    using group_index_keys [of label ds] by (metis distinct_card)
  finally show ?thesis using group_index_keys [of label ds] by simp
qed

subsection \<open>Random draws\<close>

lemma randbelow_less: "0 < n \<Longrightarrow> fst (randbelow n t) < n"
  by (cases t) simp_all

lemma mset_butlast_update_last:
  assumes "j < length xs"
  shows "mset (butlast (xs[j := last xs])) = mset xs - {#xs ! j#}"
proof -
  from assms have "xs \<noteq> []" by auto
  then obtain ys l where xs: "xs = ys @ [l]" by (metis rev_exhaust)
  show ?thesis
  proof (cases "j = length ys")
    case True
    then show ?thesis by (simp add: xs)
  next
    case False
    with assms have j: "j < length ys" by (simp add: xs)
    then have "butlast (xs[j := last xs]) = ys[j := l]"
      by (simp add: xs list_update_append)
    moreover have "mset (ys[j := l]) = add_mset l (mset ys - {#ys ! j#})"
      using j by (simp add: mset_update)
    moreover have "ys ! j \<in># mset ys" using j by simp
    ultimately show ?thesis using j by (simp add: xs nth_append)
  qed
qed

lemma sample_pool_props:
  "k \<le> length pool \<Longrightarrow> sample_pool k pool t = (res, t') \<Longrightarrow>
   length res = k \<and> mset res \<subseteq># mset pool"
proof (induction k arbitrary: pool t res t')
  case 0
  then show ?case by simp
next
  case (Suc k)
  obtain j t1 where rb: "randbelow (length pool) t = (j, t1)" by (cases "randbelow (length pool) t")
  have pos: "0 < length pool" using Suc.prems(1) by (cases pool) simp_all
  have j: "j < length pool" using randbelow_less [OF pos, of t] rb by simp
  let ?pool' = "butlast (pool[j := last pool])"
  obtain r2 t2 where sp: "sample_pool k ?pool' t1 = (r2, t2)" by (cases "sample_pool k ?pool' t1")
  have res: "res = pool ! j # r2" using Suc.prems(2) rb sp by simp
  have len: "k \<le> length ?pool'" using Suc.prems(1) by simp
  from Suc.IH [OF len sp] have ih: "length r2 = k" "mset r2 \<subseteq># mset ?pool'" by simp_all
  have "mset ?pool' = mset pool - {#pool ! j#}" using j by (rule mset_butlast_update_last)
  with ih(2) have "mset r2 \<subseteq># mset pool - {#pool ! j#}" by simp
  moreover have "pool ! j \<in># mset pool" using j by simp
  ultimately have "mset res \<subseteq># mset pool"
    unfolding res by (simp add: insert_subset_eq_iff)
  with ih(1) res show ?case by simp
qed

lemma random_sample_Inr:
  assumes "random_sample pop k t = Inr (res, t')"
  shows "0 \<le> k" "k \<le> int (length pop)" "int (length res) = k" "mset res \<subseteq># mset pop"
    "set res \<subseteq> set pop" "distinct pop \<Longrightarrow> distinct res"
proof -
  from assms show k: "0 \<le> k" "k \<le> int (length pop)"
    by (auto simp add: random_sample_def split: if_splits)
  from assms k have sp: "sample_pool (nat k) pop t = (res, t')"
    by (simp add: random_sample_def)
  have "nat k \<le> length pop" using k by simp
  from sample_pool_props [OF this sp] k
  show "int (length res) = k" and sub: "mset res \<subseteq># mset pop" by simp_all
  from sub show "set res \<subseteq> set pop" by (metis set_mset_mono set_mset_mset)
  show "distinct res" if d: "distinct pop"
    unfolding distinct_count_atmost_1
  proof (intro allI)
    fix a
    define c where "c = count (mset res) a"
    have "c \<le> count (mset pop) a"
      unfolding c_def using sub by (simp add: mset_subset_eq_count)
    moreover have "count (mset pop) a \<le> 1"
      using d by (simp add: distinct_count_atmost_1)
    ultimately have c1: "c \<le> 1" by linarith
    have c2: "a \<in> set res \<longleftrightarrow> 0 < c"
      unfolding c_def by (simp add: count_greater_zero_iff)
    have "c = (if a \<in> set res then 1 else 0)"
      using c1 c2 by (cases "a \<in> set res") auto
    then show "count (mset res) a = (if a \<in> set res then 1 else 0)"
      by (simp only: c_def)
  qed
qed

lemma random_sample_Inl:
  "random_sample pop k t = Inl e \<longleftrightarrow> e = ValueError \<and> \<not> (0 \<le> k \<and> k \<le> int (length pop))"
  by (auto simp add: random_sample_def)

lemma random_sample_total:
  "0 \<le> k \<Longrightarrow> k \<le> int (length pop) \<Longrightarrow> \<exists>res t'. random_sample pop k t = Inr (res, t')"
  by (simp add: random_sample_def)

text \<open>
  The tape does not restrict the draws: on a pool without duplicates, every list of
  distinct elements of the pool is what \<open>sample_pool\<close> returns for some tape.
\<close>

lemma set_butlast_update_last:
  assumes "distinct xs" and "j < length xs"
  shows "distinct (butlast (xs[j := last xs]))"
    and "set (butlast (xs[j := last xs])) = set xs - {xs ! j}"
proof -
  from mset_butlast_update_last [OF assms(2)]
  have m: "mset (butlast (xs[j := last xs])) = mset xs - {#xs ! j#}" .
  have "mset (butlast (xs[j := last xs])) + {#xs ! j#} = mset xs"
    using m assms(2) by simp
  then have e: "mset (butlast (xs[j := last xs]) @ [xs ! j]) = mset xs" by simp
  with assms(1) have d: "distinct (butlast (xs[j := last xs]) @ [xs ! j])"
    by (metis mset_eq_imp_distinct_iff)
  then show "distinct (butlast (xs[j := last xs]))" by simp
  from e have "set (butlast (xs[j := last xs]) @ [xs ! j]) = set xs" by (rule mset_eq_setD)
  with d show "set (butlast (xs[j := last xs])) = set xs - {xs ! j}" by auto
qed

lemma sample_pool_complete:
  "distinct pool \<Longrightarrow> distinct res \<Longrightarrow> set res \<subseteq> set pool \<Longrightarrow>
   \<exists>t. sample_pool (length res) pool t = (res, [])"
proof (induction res arbitrary: pool)
  case Nil
  show ?case by (intro exI [of _ "[]"]) simp
next
  case (Cons x res)
  from Cons.prems(3) obtain j where j: "j < length pool" "pool ! j = x"
    by (auto simp add: in_set_conv_nth)
  let ?pool = "butlast (pool[j := last pool])"
  note b = set_butlast_update_last [OF Cons.prems(1) j(1)]
  have "set res \<subseteq> set ?pool" using Cons.prems(2,3) j(2) b(2) by auto
  moreover have "distinct res" using Cons.prems(2) by simp
  ultimately obtain t where t: "sample_pool (length res) ?pool t = (res, [])"
    using Cons.IH [OF b(1)] by blast
  have "sample_pool (length (x # res)) pool (j # t) = (x # res, [])"
    using j t by simp
  then show ?case by blast
qed

lemma remove_loop_props:
  "mset sel \<subseteq># mset pool \<Longrightarrow>
   \<exists>rest. remove_loop sel pool = Inr rest \<and> mset rest = mset pool - mset sel"
proof (induction sel arbitrary: pool)
  case Nil
  then show ?case by simp
next
  case (Cons x sel)
  from Cons.prems have x: "x \<in> set pool"
    by (metis list.set_intros(1) mset_subset_eqD set_mset_mset)
  from Cons.prems have "mset sel \<subseteq># mset (remove1 x pool)"
    by (simp add: insert_subset_eq_iff)
  from Cons.IH [OF this] x show ?case by auto
qed

lemma remove_loop_error: "remove_loop sel pool = Inl e \<Longrightarrow> e = ValueError"
  by (induction sel arbitrary: pool) (auto split: if_splits)

subsection \<open>One round of the domain and dataset samplers\<close>

lemma replay_Nil [simp]: "replay dd [] = dd"
  by (simp add: replay_def)

lemma replay_Cons [simp]: "replay dd (e # evs) = replay (dict_set (dr_label e) (dr_rest e) dd) evs"
  by (simp add: replay_def)

lemma replay_append: "replay dd (xs @ ys) = replay (replay dd xs) ys"
  by (simp add: replay_def)

lemma domain_loop_error:
  "domain_loop k doms st t = Inl e \<Longrightarrow> e = ValueError"
proof (induction doms arbitrary: st t)
  case Nil
  then show ?case by simp
next
  case (Cons d doms)
  obtain dd final stop draws where st: "st = (dd, final, stop, draws)" by (cases st)
  show ?case
  proof (cases "random_sample (dict_get dd d) k t")
    case (Inl e')
    with Cons.prems show ?thesis
      by (simp add: st Let_def random_sample_Inl)
  next
    case (Inr r)
    obtain sel t1 where r: "r = (sel, t1)" by (cases r)
    show ?thesis
    proof (cases "remove_loop sel (dict_get dd d)")
      case (Inl e')
      with Cons.prems Inr r remove_loop_error [OF Inl] show ?thesis
        by (simp add: st Let_def)
    next
      case (Inr rest)
      with Cons.prems \<open>random_sample (dict_get dd d) k t = Inr r\<close> r Cons.IH show ?thesis
        by (simp add: st Let_def)
    qed
  qed
qed

lemma domain_loop_short_pool:
  "l \<in> set doms \<Longrightarrow> int (length (dict_get dd l)) < k \<Longrightarrow>
   domain_loop k doms (dd, final, stop, draws) t = Inl ValueError"
proof (induction doms arbitrary: dd final stop draws t)
  case Nil
  then show ?case by simp
next
  case (Cons d doms)
  show ?case
  proof (cases "domain_loop k (d # doms) (dd, final, stop, draws) t")
    case (Inl e)
    from domain_loop_error [OF Inl] Inl show ?thesis by (simp only:)
  next
    case (Inr r)
    from Inr obtain sel t1 where rs: "random_sample (dict_get dd d) k t = Inr (sel, t1)"
      by (auto simp add: Let_def split: sum.splits)
    from Inr rs obtain rest where rm: "remove_loop sel (dict_get dd d) = Inr rest"
      by (auto simp add: Let_def split: sum.splits)
    from random_sample_Inr(2) [OF rs] Cons.prems(2) have ld: "l \<noteq> d" by auto
    with Cons.prems(1) have l: "l \<in> set doms" by simp
    have "int (length (dict_get (dict_set d rest dd) l)) < k"
      using Cons.prems(2) ld by (simp add: dict_get_dict_set)
    from Cons.IH [OF l this] Inr rs rm show ?thesis
      by (simp add: Let_def)
  qed
qed

lemma domain_loop_Inr:
  assumes "domain_loop k doms (dd, final, stop, draws) t = Inr ((dd', final', stop', draws'), t')"
    and "\<forall>l. distinct (dict_get dd l)"
  shows "\<exists>evs. draws' = draws @ evs \<and> map dr_label evs = doms
      \<and> final' = final @ concat (map dr_selected evs)
      \<and> dd' = replay dd evs
      \<and> (\<forall>i<length evs. dr_pool (evs ! i) = dict_get (replay dd (take i evs)) (dr_label (evs ! i)))
      \<and> (\<forall>e\<in>set evs. int (length (dr_selected e)) = k \<and> distinct (dr_pool e)
            \<and> mset (dr_rest e) + mset (dr_selected e) = mset (dr_pool e))
      \<and> (stop' \<longleftrightarrow> stop \<or> (\<exists>e\<in>set evs. int (length (dr_rest e)) < k))
      \<and> (\<forall>l. distinct (dict_get dd' l))"
  using assms
proof (induction doms arbitrary: dd final stop draws t)
  case Nil
  then show ?case by simp
next
  case (Cons d doms)
  let ?pool = "dict_get dd d"
  from Cons.prems(1) obtain sel t1 where rs: "random_sample ?pool k t = Inr (sel, t1)"
    by (auto simp add: Let_def split: sum.splits)
  from Cons.prems(1) rs obtain rest where rm: "remove_loop sel ?pool = Inr rest"
    by (auto simp add: Let_def split: sum.splits)
  define e0 where "e0 = \<lparr> dr_label = d, dr_pool = ?pool, dr_selected = sel, dr_rest = rest \<rparr>"
  define dd1 where "dd1 = dict_set d rest dd"
  define stop1 where "stop1 = (if int (length rest) < k then True else stop)"
  have run: "domain_loop k doms (dd1, final @ sel, stop1, draws @ [e0]) t1
      = Inr ((dd', final', stop', draws'), t')"
    using Cons.prems(1) rs rm by (simp add: Let_def e0_def dd1_def stop1_def)
  have dp: "distinct ?pool" using Cons.prems(2) by simp
  from remove_loop_props [OF random_sample_Inr(4) [OF rs]] rm
  have mrest: "mset rest = mset ?pool - mset sel" by auto
  then have mrest': "mset rest + mset sel = mset ?pool"
    using random_sample_Inr(4) [OF rs] by (simp add: subset_mset.diff_add)
  have "mset rest \<subseteq># mset ?pool" using mrest by simp
  then have drest: "distinct rest"
    using dp mrest' by (metis distinct_append mset_append mset_eq_imp_distinct_iff)
  have inv1: "\<forall>l. distinct (dict_get dd1 l)"
    using Cons.prems(2) drest by (simp add: dd1_def dict_get_dict_set)
  from Cons.IH [OF run inv1] obtain evs where evs:
    "draws' = (draws @ [e0]) @ evs" "map dr_label evs = doms"
    "final' = (final @ sel) @ concat (map dr_selected evs)"
    "dd' = replay dd1 evs"
    "\<forall>i<length evs. dr_pool (evs ! i) = dict_get (replay dd1 (take i evs)) (dr_label (evs ! i))"
    "\<forall>e\<in>set evs. int (length (dr_selected e)) = k \<and> distinct (dr_pool e)
            \<and> mset (dr_rest e) + mset (dr_selected e) = mset (dr_pool e)"
    "stop' \<longleftrightarrow> stop1 \<or> (\<exists>e\<in>set evs. int (length (dr_rest e)) < k)"
    "\<forall>l. distinct (dict_get dd' l)"
    by blast
  have e0: "dr_label e0 = d" "dr_pool e0 = ?pool" "dr_selected e0 = sel" "dr_rest e0 = rest"
    by (simp_all add: e0_def)
  have pools: "\<forall>i<length (e0 # evs). dr_pool ((e0 # evs) ! i)
      = dict_get (replay dd (take i (e0 # evs))) (dr_label ((e0 # evs) ! i))"
  proof (intro allI impI)
    fix i assume "i < length (e0 # evs)"
    then show "dr_pool ((e0 # evs) ! i)
      = dict_get (replay dd (take i (e0 # evs))) (dr_label ((e0 # evs) ! i))"
      using evs(5) by (cases i) (simp_all add: e0 dd1_def)
  qed
  have "draws' = draws @ (e0 # evs)" using evs(1) by simp
  moreover have "map dr_label (e0 # evs) = d # doms" using evs(2) by (simp add: e0)
  moreover have "final' = final @ concat (map dr_selected (e0 # evs))"
    using evs(3) by (simp add: e0)
  moreover have "dd' = replay dd (e0 # evs)" using evs(4) by (simp add: e0 dd1_def)
  moreover have "\<forall>e\<in>set (e0 # evs). int (length (dr_selected e)) = k \<and> distinct (dr_pool e)
            \<and> mset (dr_rest e) + mset (dr_selected e) = mset (dr_pool e)"
    using evs(6) random_sample_Inr(3) [OF rs] dp mrest' by (simp add: e0)
  moreover have "stop' \<longleftrightarrow> stop \<or> (\<exists>e\<in>set (e0 # evs). int (length (dr_rest e)) < k)"
    using evs(7) by (auto simp add: stop1_def e0)
  ultimately show ?case using pools evs(8)
    by (intro exI [of _ "e0 # evs"] conjI) (assumption+)
qed

subsection \<open>A pass of the domain and dataset samplers\<close>

lemma replay_mset:
  assumes "\<forall>i<length evs. dr_pool (evs ! i) = dict_get (replay dd (take i evs)) (dr_label (evs ! i))"
    and "\<forall>e\<in>set evs. mset (dr_rest e) + mset (dr_selected e) = mset (dr_pool e)"
  shows "mset (dict_get (replay dd evs) l)
           + mset (concat (map dr_selected (filter (\<lambda>e. dr_label e = l) evs)))
         = mset (dict_get dd l)"
  using assms
proof (induction evs rule: rev_induct)
  case Nil
  show ?case by simp
next
  case (snoc e evs)
  have p: "\<forall>i<length evs. dr_pool (evs ! i) = dict_get (replay dd (take i evs)) (dr_label (evs ! i))"
  proof (intro allI impI)
    fix i assume i: "i < length evs"
    then have "i < length (evs @ [e])" by simp
    with snoc.prems(1) have "dr_pool ((evs @ [e]) ! i)
        = dict_get (replay dd (take i (evs @ [e]))) (dr_label ((evs @ [e]) ! i))" by blast
    with i show "dr_pool (evs ! i) = dict_get (replay dd (take i evs)) (dr_label (evs ! i))"
      by (simp add: nth_append)
  qed
  have q: "\<forall>e\<in>set evs. mset (dr_rest e) + mset (dr_selected e) = mset (dr_pool e)"
    using snoc.prems(2) by simp
  note ih = snoc.IH [OF p q]
  have pe: "dr_pool e = dict_get (replay dd evs) (dr_label e)"
    using snoc.prems(1) [rule_format, of "length evs"] by simp
  have me: "mset (dr_rest e) + mset (dr_selected e) = mset (dr_pool e)"
    using snoc.prems(2) by simp
  have rp: "replay dd (evs @ [e]) = dict_set (dr_label e) (dr_rest e) (replay dd evs)"
    by (simp add: replay_def)
  show ?case
  proof (cases "dr_label e = l")
    case True
    have "mset (dict_get (replay dd (evs @ [e])) l)
           + mset (concat (map dr_selected (filter (\<lambda>e. dr_label e = l) (evs @ [e]))))
        = mset (dr_rest e) + (mset (concat (map dr_selected (filter (\<lambda>e. dr_label e = l) evs)))
             + mset (dr_selected e))"
      using True by (simp add: rp dict_get_dict_set)
    also have "\<dots> = mset (dr_pool e) + mset (concat (map dr_selected (filter (\<lambda>e. dr_label e = l) evs)))"
      using me by (simp add: ac_simps)
    also have "\<dots> = mset (dict_get dd l)" using ih pe True by simp
    finally show ?thesis .
  next
    case False
    then show ?thesis using ih by (simp add: rp dict_get_dict_set)
  qed
qed

lemma pool_before_mset:
  assumes p: "\<forall>i<length evs. dr_pool (evs ! i) = dict_get (replay dd (take i evs)) (dr_label (evs ! i))"
    and q: "\<forall>e\<in>set evs. mset (dr_rest e) + mset (dr_selected e) = mset (dr_pool e)"
    and i: "i < length evs"
  shows "mset (dr_pool (evs ! i)) + mset (drawn_before evs i)
         = mset (dict_get dd (dr_label (evs ! i)))"
proof -
  have p': "\<forall>j<length (take i evs). dr_pool (take i evs ! j)
      = dict_get (replay dd (take j (take i evs))) (dr_label (take i evs ! j))"
  proof (intro allI impI)
    fix j assume "j < length (take i evs)"
    then have j: "j < i" "j < length evs" by simp_all
    then have "take j (take i evs) = take j evs" by (simp add: min_def)
    with j p show "dr_pool (take i evs ! j)
      = dict_get (replay dd (take j (take i evs))) (dr_label (take i evs ! j))" by simp
  qed
  have q': "\<forall>e\<in>set (take i evs). mset (dr_rest e) + mset (dr_selected e) = mset (dr_pool e)"
    using q by (meson in_set_takeD)
  from replay_mset [OF p' q', of "dr_label (evs ! i)"] p i
  show ?thesis by (simp add: drawn_before_def)
qed

lemma sampling_loop_Inr:
  assumes "sampling_loop fuel s (dd, final, rounds) t = Some (Inr ((out, rounds'), t'))"
    and "\<forall>l. distinct (dict_get dd l)"
    and dom: "distinct (rds_domains s)"
  shows "\<exists>new. rounds' = rounds @ new \<and> new \<noteq> []
     \<and> out = final @ concat (map dr_selected (concat new))
     \<and> (\<forall>r\<in>set new. int (length r) = rds_n_domain s \<and> distinct (map dr_label r)
           \<and> set (map dr_label r) \<subseteq> set (rds_domains s))
     \<and> (\<forall>e\<in>set (concat new). int (length (dr_selected e)) = rds_n_img_per_domain s
           \<and> distinct (dr_pool e)
           \<and> mset (dr_rest e) + mset (dr_selected e) = mset (dr_pool e))
     \<and> (\<forall>i<length (concat new). dr_pool (concat new ! i)
           = dict_get (replay dd (take i (concat new))) (dr_label (concat new ! i)))
     \<and> (\<forall>r\<in>set (butlast new). \<forall>e\<in>set r. \<not> int (length (dr_rest e)) < rds_n_img_per_domain s)
     \<and> (\<exists>e\<in>set (last new). int (length (dr_rest e)) < rds_n_img_per_domain s)"
  using assms(1,2)
proof (induction fuel arbitrary: dd final rounds t)
  case 0
  then show ?case by simp
next
  case (Suc fuel)
  let ?k = "rds_n_img_per_domain s"
  from Suc.prems(1) obtain sel t1
    where rs: "random_sample (rds_domains s) (rds_n_domain s) t = Inr (sel, t1)"
    by (auto split: sum.splits)
  from Suc.prems(1) rs obtain dd1 final1 stop1 evs t2
    where dl: "domain_loop ?k sel (dd, final, False, []) t1 = Inr ((dd1, final1, stop1, evs), t2)"
    by (auto split: sum.splits)
  from domain_loop_Inr [OF dl Suc.prems(2)]
  have evs: "map dr_label evs = sel" "final1 = final @ concat (map dr_selected evs)"
    "dd1 = replay dd evs"
    "\<forall>i<length evs. dr_pool (evs ! i) = dict_get (replay dd (take i evs)) (dr_label (evs ! i))"
    "\<forall>e\<in>set evs. int (length (dr_selected e)) = ?k \<and> distinct (dr_pool e)
            \<and> mset (dr_rest e) + mset (dr_selected e) = mset (dr_pool e)"
    "stop1 \<longleftrightarrow> (\<exists>e\<in>set evs. int (length (dr_rest e)) < ?k)"
    "\<forall>l. distinct (dict_get dd1 l)"
    by auto
  have "length evs = length sel" using evs(1) by (metis length_map)
  then have r1: "int (length evs) = rds_n_domain s"
    using random_sample_Inr(3) [OF rs] by simp
  have r2: "distinct (map dr_label evs)"
    using random_sample_Inr(6) [OF rs dom] evs(1) by simp
  have r3: "set (map dr_label evs) \<subseteq> set (rds_domains s)"
    using random_sample_Inr(5) [OF rs] evs(1) by simp
  show ?case
  proof (cases stop1)
    case True
    with Suc.prems(1) rs dl have res: "out = final1" "rounds' = rounds @ [evs]" by simp_all
    show ?thesis
      using res evs(2,4,5) evs(6) True r1 r2 r3
      by (intro exI [of _ "[evs]"]) simp
  next
    case False
    with Suc.prems(1) rs dl
    have rec: "sampling_loop fuel s (dd1, final1, rounds @ [evs]) t2 = Some (Inr ((out, rounds'), t'))"
      by simp
    from Suc.IH [OF rec evs(7)] obtain new where new:
      "rounds' = (rounds @ [evs]) @ new" "new \<noteq> []"
      "out = final1 @ concat (map dr_selected (concat new))"
      "\<forall>r\<in>set new. int (length r) = rds_n_domain s \<and> distinct (map dr_label r)
           \<and> set (map dr_label r) \<subseteq> set (rds_domains s)"
      "\<forall>e\<in>set (concat new). int (length (dr_selected e)) = ?k \<and> distinct (dr_pool e)
           \<and> mset (dr_rest e) + mset (dr_selected e) = mset (dr_pool e)"
      "\<forall>i<length (concat new). dr_pool (concat new ! i)
           = dict_get (replay dd1 (take i (concat new))) (dr_label (concat new ! i))"
      "\<forall>r\<in>set (butlast new). \<forall>e\<in>set r. \<not> int (length (dr_rest e)) < ?k"
      "\<exists>e\<in>set (last new). int (length (dr_rest e)) < ?k"
      by blast
    have pools: "\<forall>i<length (concat (evs # new)). dr_pool (concat (evs # new) ! i)
           = dict_get (replay dd (take i (concat (evs # new)))) (dr_label (concat (evs # new) ! i))"
    proof (intro allI impI)
      fix i assume i: "i < length (concat (evs # new))"
      show "dr_pool (concat (evs # new) ! i)
           = dict_get (replay dd (take i (concat (evs # new)))) (dr_label (concat (evs # new) ! i))"
      proof (cases "i < length evs")
        case True
        then show ?thesis using evs(4) by (simp add: nth_append)
      next
        case False
        then have "i - length evs < length (concat new)" using i by simp
        with new(6) have "dr_pool (concat new ! (i - length evs))
           = dict_get (replay dd1 (take (i - length evs) (concat new)))
               (dr_label (concat new ! (i - length evs)))" by blast
        then show ?thesis using False by (simp add: nth_append replay_append evs(3))
      qed
    qed
    have a: "rounds' = rounds @ (evs # new)" using new(1) by simp
    have b: "out = final @ concat (map dr_selected (concat (evs # new)))"
      using new(3) evs(2) by simp
    have c: "\<forall>r\<in>set (evs # new). int (length r) = rds_n_domain s \<and> distinct (map dr_label r)
           \<and> set (map dr_label r) \<subseteq> set (rds_domains s)"
      using new(4) r1 r2 r3 by simp
    have d: "\<forall>e\<in>set (concat (evs # new)). int (length (dr_selected e)) = ?k \<and> distinct (dr_pool e)
           \<and> mset (dr_rest e) + mset (dr_selected e) = mset (dr_pool e)"
      using new(5) evs(5) by auto
    have e: "\<forall>r\<in>set (butlast (evs # new)). \<forall>e\<in>set r. \<not> int (length (dr_rest e)) < ?k"
      using new(2,7) False evs(6) by auto
    have f: "\<exists>e\<in>set (last (evs # new)). int (length (dr_rest e)) < ?k"
      using new(2,8) by simp
    show ?thesis
      using a b c d pools e f
      by (intro exI [of _ "evs # new"] conjI) (assumption | simp)+
  qed
qed

lemma sampling_loop_length_field:
  "sampling_loop fuel (s\<lparr>rds_length := x\<rparr>) st t = sampling_loop fuel s st t"
proof (induction fuel arbitrary: st t)
  case 0
  show ?case by simp
next
  case (Suc fuel)
  obtain dd final rounds where st: "st = (dd, final, rounds)" by (cases st)
  show ?case unfolding st by (simp add: Suc split: sum.splits prod.splits)
qed

subsection \<open>Constructed domain and dataset samplers\<close>

lemma balanced_iter_length_field:
  "balanced_iter fuel (s\<lparr>rds_length := x\<rparr>) t = balanced_iter fuel s t"
  by (simp add: balanced_iter_def balanced_rounds_def sampling_loop_length_field)

lemma balanced_init_Inr:
  assumes "balanced_init label fuel ds bs nd t = Some (Inr (s, t'))"
  shows "rds_domain_dict s = group_index label ds"
    and "rds_domains s = map fst (group_index label ds)"
    and "0 < rds_n_domain s"
    and "rds_n_img_per_domain s * rds_n_domain s = bs"
    and "rds_batch_size s = bs"
    and "rds_n_domain s = (case nd of None \<Rightarrow> int (length (rds_domains s))
                             | Some n \<Rightarrow> if n \<le> 0 then int (length (rds_domains s)) else n)"
    and "\<exists>out. balanced_iter fuel s t = Some (Inr (out, t')) \<and> rds_length s = int (length out)"
proof -
  define n where "n = (case nd of None \<Rightarrow> int (length (map fst (group_index label ds)))
      | Some n \<Rightarrow> if n \<le> 0 then int (length (map fst (group_index label ds))) else n)"
  define s0 where "s0 = \<lparr> rds_data_source = ds, rds_domain_dict = group_index label ds,
                     rds_domains = map fst (group_index label ds),
                     rds_n_img_per_domain = bs div n,
                     rds_batch_size = bs, rds_n_domain = n, rds_length = 0 \<rparr>"
  have n0: "n \<noteq> 0" and md: "bs mod n = 0"
    using assms by (auto simp add: balanced_init_def Let_def n_def split: if_splits)
  from assms n0 md obtain out where it: "balanced_iter fuel s0 t = Some (Inr (out, t'))"
    and s: "s = s0\<lparr>rds_length := int (length out)\<rparr>"
    by (auto simp add: balanced_init_def Let_def n_def [symmetric] s0_def [symmetric]
        split: option.splits sum.splits)
  have "0 \<le> n" by (auto simp add: n_def split: option.splits)
  with n0 have npos: "0 < n" by simp
  show "rds_domain_dict s = group_index label ds" by (simp add: s s0_def)
  show "rds_domains s = map fst (group_index label ds)" by (simp add: s s0_def)
  show "0 < rds_n_domain s" using npos by (simp add: s s0_def)
  show "rds_n_img_per_domain s * rds_n_domain s = bs"
    using md by (simp add: s s0_def) (metis div_mult_mod_eq add.right_neutral)
  show "rds_batch_size s = bs" by (simp add: s s0_def)
  show "rds_n_domain s = (case nd of None \<Rightarrow> int (length (rds_domains s))
                             | Some n \<Rightarrow> if n \<le> 0 then int (length (rds_domains s)) else n)"
    by (cases nd) (simp_all add: s s0_def n_def)
  show "\<exists>out. balanced_iter fuel s t = Some (Inr (out, t')) \<and> rds_length s = int (length out)"
    using it by (simp add: s balanced_iter_length_field)
qed

lemma mset_split_distinct:
  assumes "mset a + mset b = mset c" and "distinct c"
  shows "distinct a" "distinct b" "set b \<subseteq> set c" "set a = set c - set b"
proof -
  from assms(1) have m: "mset (a @ b) = mset c" by simp
  with assms(2) have d: "distinct (a @ b)" by (metis mset_eq_imp_distinct_iff)
  from m have s: "set (a @ b) = set c" by (rule mset_eq_setD)
  from d show "distinct a" "distinct b" by simp_all
  from s show "set b \<subseteq> set c" by auto
  from d s show "set a = set c - set b" by auto
qed

lemma balanced_rounds_props:
  assumes init: "balanced_init label fuel0 ds bs nd t0 = Some (Inr (s, t0'))"
    and pass: "balanced_rounds fuel s t = Some (Inr ((final, rounds), t'))"
  shows "rounds \<noteq> []"
    and "final = concat (map dr_selected (concat rounds))"
    and "\<forall>r\<in>set rounds. int (length r) = rds_n_domain s \<and> distinct (map dr_label r)
           \<and> set (map dr_label r) \<subseteq> set (rds_domains s)"
    and "\<forall>e\<in>set (concat rounds). int (length (dr_selected e)) = rds_n_img_per_domain s
           \<and> distinct (dr_pool e)
           \<and> mset (dr_rest e) + mset (dr_selected e) = mset (dr_pool e)"
    and "\<forall>i<length (concat rounds). mset (dr_pool (concat rounds ! i))
           + mset (drawn_before (concat rounds) i)
           = mset (dict_get (rds_domain_dict s) (dr_label (concat rounds ! i)))"
    and "\<forall>r\<in>set (butlast rounds). \<forall>e\<in>set r. \<not> int (length (dr_rest e)) < rds_n_img_per_domain s"
    and "\<exists>e\<in>set (last rounds). int (length (dr_rest e)) < rds_n_img_per_domain s"
proof -
  note i = balanced_init_Inr [OF init]
  have inv: "\<forall>l. distinct (dict_get (rds_domain_dict s) l)"
    by (simp add: i(1) group_index_distinct)
  have dom: "distinct (rds_domains s)"
    using group_index_keys [of label ds] by (simp add: i(2))
  from pass have "sampling_loop fuel s (rds_domain_dict s, [], []) t = Some (Inr ((final, rounds), t'))"
    by (simp add: balanced_rounds_def)
  from sampling_loop_Inr [OF this inv dom] obtain new where new:
    "rounds = [] @ new" "new \<noteq> []"
    "final = [] @ concat (map dr_selected (concat new))"
    "\<forall>r\<in>set new. int (length r) = rds_n_domain s \<and> distinct (map dr_label r)
           \<and> set (map dr_label r) \<subseteq> set (rds_domains s)"
    "\<forall>e\<in>set (concat new). int (length (dr_selected e)) = rds_n_img_per_domain s
           \<and> distinct (dr_pool e)
           \<and> mset (dr_rest e) + mset (dr_selected e) = mset (dr_pool e)"
    "\<forall>i<length (concat new). dr_pool (concat new ! i)
           = dict_get (replay (rds_domain_dict s) (take i (concat new))) (dr_label (concat new ! i))"
    "\<forall>r\<in>set (butlast new). \<forall>e\<in>set r. \<not> int (length (dr_rest e)) < rds_n_img_per_domain s"
    "\<exists>e\<in>set (last new). int (length (dr_rest e)) < rds_n_img_per_domain s"
    by blast
  have r: "new = rounds" using new(1) by simp
  show "rounds \<noteq> []" using new(2) r by simp
  show "final = concat (map dr_selected (concat rounds))" using new(3) r by simp
  show "\<forall>r\<in>set rounds. int (length r) = rds_n_domain s \<and> distinct (map dr_label r)
           \<and> set (map dr_label r) \<subseteq> set (rds_domains s)" using new(4) r by simp
  show A: "\<forall>e\<in>set (concat rounds). int (length (dr_selected e)) = rds_n_img_per_domain s
           \<and> distinct (dr_pool e)
           \<and> mset (dr_rest e) + mset (dr_selected e) = mset (dr_pool e)" using new(5) r by simp
  have B: "\<forall>i<length (concat rounds). dr_pool (concat rounds ! i)
           = dict_get (replay (rds_domain_dict s) (take i (concat rounds)))
               (dr_label (concat rounds ! i))" using new(6) r by simp
  have A': "\<forall>e\<in>set (concat rounds). mset (dr_rest e) + mset (dr_selected e) = mset (dr_pool e)"
    using A by blast
  show "\<forall>i<length (concat rounds). mset (dr_pool (concat rounds ! i))
           + mset (drawn_before (concat rounds) i)
           = mset (dict_get (rds_domain_dict s) (dr_label (concat rounds ! i)))"
    using pool_before_mset [OF B A'] by blast
  show "\<forall>r\<in>set (butlast rounds). \<forall>e\<in>set r. \<not> int (length (dr_rest e)) < rds_n_img_per_domain s"
    using new(7) r by simp
  show "\<exists>e\<in>set (last rounds). int (length (dr_rest e)) < rds_n_img_per_domain s"
    using new(8) r by simp
qed

lemma length_concat_rounds:
  assumes "\<forall>r\<in>set rounds. int (length r) = n"
    and "\<forall>e\<in>set (concat rounds). int (length (dr_selected e)) = k"
  shows "int (length (concat (map dr_selected (concat rounds)))) = int (length rounds) * (k * n)"
  using assms
proof (induction rounds)
  case Nil
  show ?case by simp
next
  case (Cons r rounds)
  have "\<forall>e\<in>set r. int (length (dr_selected e)) = k" using Cons.prems(2) by simp
  then have "int (length (concat (map dr_selected r))) = int (length r) * k"
    by (induction r) (simp_all add: algebra_simps)
  moreover have "int (length r) = n" using Cons.prems(1) by simp
  moreover have "int (length (concat (map dr_selected (concat rounds)))) = int (length rounds) * (k * n)"
    using Cons by simp
  ultimately show ?case by (simp add: algebra_simps)
qed

text \<open>
  Claim C2. Take a sampler built by \<open>__init__\<close> (for RandomDomainSampler the label is
  \<open>camid\<close>, for RandomDatasetSampler \<open>dsetid\<close>) and a pass over it that returns, for
  any tape. The emitted sequence is the concatenation of what the recorded draws
  selected; every round has \<open>n_domain\<close> draws, so the length is the number of rounds
  times \<open>n_img_per_domain * n_domain\<close>, a multiple of it. Every draw is from a
  label of the sampler, takes exactly \<open>n_img_per_domain\<close> pairwise distinct indices,
  all of them in the pool of that label at the moment of the draw, and leaves the pool
  without them. The pool at the moment of the draw is the group of the label less
  what earlier draws took from that label.
\<close>

theorem balanced_pass_draws:
  assumes init: "balanced_init label fuel0 ds bs nd t0 = Some (Inr (s, t0'))"
    and pass: "balanced_rounds fuel s t = Some (Inr ((final_idxs, rounds), t'))"
  shows "balanced_iter fuel s t = Some (Inr (final_idxs, t'))
     \<and> final_idxs = concat (map dr_selected (concat rounds))
     \<and> int (length final_idxs)
         = int (length rounds) * (rds_n_img_per_domain s * rds_n_domain s)
     \<and> (rds_n_img_per_domain s * rds_n_domain s) dvd int (length final_idxs)
     \<and> (\<forall>r\<in>set rounds. int (length r) = rds_n_domain s)
     \<and> (\<forall>i<length (concat rounds).
           dr_label (concat rounds ! i) \<in> set (rds_domains s)
         \<and> int (length (dr_selected (concat rounds ! i))) = rds_n_img_per_domain s
         \<and> distinct (dr_selected (concat rounds ! i))
         \<and> set (dr_selected (concat rounds ! i)) \<subseteq> set (dr_pool (concat rounds ! i))
         \<and> set (dr_rest (concat rounds ! i))
             = set (dr_pool (concat rounds ! i)) - set (dr_selected (concat rounds ! i))
         \<and> mset (dr_pool (concat rounds ! i)) + mset (drawn_before (concat rounds) i)
             = mset (dict_get (rds_domain_dict s) (dr_label (concat rounds ! i))))"
proof -
  note p = balanced_rounds_props [OF init pass]
  have a: "balanced_iter fuel s t = Some (Inr (final_idxs, t'))"
    using pass by (simp add: balanced_iter_def)
  have n: "\<forall>r\<in>set rounds. int (length r) = rds_n_domain s" using p(3) by blast
  have k: "\<forall>e\<in>set (concat rounds). int (length (dr_selected e)) = rds_n_img_per_domain s"
    using p(4) by blast
  have len: "int (length final_idxs)
         = int (length rounds) * (rds_n_img_per_domain s * rds_n_domain s)"
    unfolding p(2) using n k by (rule length_concat_rounds)
  then have dv: "(rds_n_img_per_domain s * rds_n_domain s) dvd int (length final_idxs)"
    by simp
  have ev: "dr_label (concat rounds ! i) \<in> set (rds_domains s)
         \<and> int (length (dr_selected (concat rounds ! i))) = rds_n_img_per_domain s
         \<and> distinct (dr_selected (concat rounds ! i))
         \<and> set (dr_selected (concat rounds ! i)) \<subseteq> set (dr_pool (concat rounds ! i))
         \<and> set (dr_rest (concat rounds ! i))
             = set (dr_pool (concat rounds ! i)) - set (dr_selected (concat rounds ! i))
         \<and> mset (dr_pool (concat rounds ! i)) + mset (drawn_before (concat rounds) i)
             = mset (dict_get (rds_domain_dict s) (dr_label (concat rounds ! i)))"
    if i: "i < length (concat rounds)" for i
  proof -
    let ?e = "concat rounds ! i"
    have mem: "?e \<in> set (concat rounds)" using i by (rule nth_mem)
    then obtain r where r: "r \<in> set rounds" "?e \<in> set r"
      unfolding set_concat by blast
    then have "dr_label ?e \<in> set (map dr_label r)" by simp
    with p(3) r(1) have l: "dr_label ?e \<in> set (rds_domains s)" by blast
    from p(4) mem have e: "int (length (dr_selected ?e)) = rds_n_img_per_domain s"
      "distinct (dr_pool ?e)" "mset (dr_rest ?e) + mset (dr_selected ?e) = mset (dr_pool ?e)"
      by blast+
    note sp = mset_split_distinct [OF e(3) e(2)]
    from p(5) i have "mset (dr_pool ?e) + mset (drawn_before (concat rounds) i)
             = mset (dict_get (rds_domain_dict s) (dr_label ?e))" by blast
    with l e(1) sp show ?thesis by blast
  qed
  from a p(2) len dv n ev show ?thesis by blast
qed

lemma domain_loop_flag:
  "domain_loop k doms (dd, final, True, draws) t
     = map_sum id (\<lambda>((dd', final', stop', draws'), t'). ((dd', final', True, draws'), t'))
         (domain_loop k doms (dd, final, False, draws) t)"
proof (induction doms arbitrary: dd final draws t)
  case Nil
  show ?case by simp
next
  case (Cons d doms)
  show ?case
  proof (cases "random_sample (dict_get dd d) k t")
    case (Inl e)
    then show ?thesis by (simp add: Let_def)
  next
    case (Inr r)
    obtain sel t1 where r: "r = (sel, t1)" by (cases r)
    show ?thesis
    proof (cases "remove_loop sel (dict_get dd d)")
      case (Inl e)
      with Inr r show ?thesis by (simp add: Let_def)
    next
      case rm: (Inr rest)
      show ?thesis
      proof (cases "int (length rest) < k")
        case True
        let ?f = "\<lambda>((dd', final', stop', draws'), t').
                    ((dd' :: (int \<times> nat list) list, final' :: nat list, True, draws' :: draw list),
                     t' :: tape)"
        let ?dr = "draws @ [\<lparr>dr_label = d, dr_pool = dict_get dd d, dr_selected = sel,
                              dr_rest = rest\<rparr>]"
        let ?Y = "domain_loop k doms (dict_set d rest dd, final @ sel, False, ?dr) t1"
        have X: "domain_loop k doms (dict_set d rest dd, final @ sel, True, ?dr) t1
                   = map_sum id ?f ?Y"
          by (rule Cons.IH)
        have idem: "map_sum id ?f (map_sum id ?f ?Y) = map_sum id ?f ?Y"
          by (cases ?Y) auto
        have l: "domain_loop k (d # doms) (dd, final, True, draws) t = map_sum id ?f ?Y"
          using Inr r rm True X by (simp add: Let_def)
        have l': "domain_loop k (d # doms) (dd, final, False, draws) t = map_sum id ?f ?Y"
          using Inr r rm True X by (simp add: Let_def)
        show ?thesis by (simp only: l l' idem)
      next
        case False
        with Inr r rm Cons.IH show ?thesis by (simp add: Let_def)
      qed
    qed
  qed
qed

text \<open>
  A pass over the six items by camera, one camera for each round and two images for
  each camera: two rounds, both on camera 1.
\<close>

theorem balanced_pass_draws_witness:
  "\<exists>s. balanced_init camid 5 six_items 2 (Some 1) [0] = Some (Inr (s, []))
     \<and> (\<exists>rounds. balanced_rounds 5 s [1, 0, 0, 1, 3] = Some (Inr (([2, 5, 4, 3], rounds), []))
          \<and> balanced_iter 5 s [1, 0, 0, 1, 3] = Some (Inr ([2, 5, 4, 3], []))
          \<and> rds_n_img_per_domain s = 2 \<and> rds_n_domain s = 1
          \<and> length rounds = 2
          \<and> map dr_label (concat rounds) = [1, 1]
          \<and> map dr_pool (concat rounds) = [[2, 3, 4, 5], [3, 4]]
          \<and> map dr_selected (concat rounds) = [[2, 5], [4, 3]]
          \<and> map dr_rest (concat rounds) = [[3, 4], []]
          \<and> (rds_n_img_per_domain s * rds_n_domain s) dvd int (length [2, 5, 4, 3 :: nat])
          \<and> mset (dr_pool (concat rounds ! 1)) + mset (drawn_before (concat rounds) 1)
                = mset (dict_get (rds_domain_dict s) 1))"
proof -
  define s where "s = \<lparr> rds_data_source = six_items,
     rds_domain_dict = [(0, [0, 1]), (1, [2, 3, 4, 5])], rds_domains = [0, 1],
     rds_n_img_per_domain = 2, rds_batch_size = 2, rds_n_domain = 1, rds_length = 2 \<rparr>"
  define rounds where "rounds =
     [[\<lparr>dr_label = 1, dr_pool = [2, 3, 4, 5], dr_selected = [2, 5], dr_rest = [3, 4]\<rparr>],
      [\<lparr>dr_label = 1, dr_pool = [3, 4], dr_selected = [4, 3], dr_rest = []\<rparr>]]"
  have i: "balanced_init camid 5 six_items 2 (Some 1) [0] = Some (Inr (s, []))"
    unfolding s_def by code_simp
  have p: "balanced_rounds 5 s [1, 0, 0, 1, 3] = Some (Inr (([2, 5, 4, 3], rounds), []))"
    unfolding s_def rounds_def by code_simp
  note T = balanced_pass_draws [OF i p]
  have l: "(1::nat) < length (concat rounds)" by (simp add: rounds_def)
  from T l have "mset (dr_pool (concat rounds ! 1)) + mset (drawn_before (concat rounds) 1)
                = mset (dict_get (rds_domain_dict s) (dr_label (concat rounds ! 1)))"
    by blast
  moreover have "dr_label (concat rounds ! 1) = 1" by (simp add: rounds_def)
  moreover from T have "balanced_iter 5 s [1, 0, 0, 1, 3] = Some (Inr ([2, 5, 4, 3], []))"
    "(rds_n_img_per_domain s * rds_n_domain s) dvd int (length [2, 5, 4, 3 :: nat])"
    by blast+
  moreover have "rds_n_img_per_domain s = 2" "rds_n_domain s = 1" by (simp_all add: s_def)
  moreover have "length rounds = 2" "map dr_label (concat rounds) = [1, 1]"
    "map dr_pool (concat rounds) = [[2, 3, 4, 5], [3, 4]]"
    "map dr_selected (concat rounds) = [[2, 5], [4, 3]]"
    "map dr_rest (concat rounds) = [[3, 4], []]"
    by (simp_all add: rounds_def)
  ultimately show ?thesis using i p by (intro exI [of _ s] conjI exI [of _ rounds]) simp_all
qed

text \<open>
  A round is total when the pools allow it: if the selected labels are distinct and each
  holds at least \<open>k\<close> indices, the loop over them returns, with one draw of \<open>k\<close>
  indices for each label in turn, whatever a draw leaves in its pool.
\<close>

lemma domain_loop_total:
  assumes "distinct doms" and "0 \<le> k"
    and "\<forall>d\<in>set doms. k \<le> int (length (dict_get dd d))"
  shows "\<exists>dd' evs t'.
      domain_loop k doms (dd, final, stop, draws) t
        = Inr ((dd', final @ concat (map dr_selected evs),
                (stop \<or> (\<exists>e\<in>set evs. int (length (dr_rest e)) < k)), draws @ evs), t')
      \<and> map dr_label evs = doms
      \<and> (\<forall>e\<in>set evs. int (length (dr_selected e)) = k)"
  using assms
proof (induction doms arbitrary: dd final stop draws t)
  case Nil
  show ?case by (intro exI [of _ dd] exI [of _ "[]"] exI [of _ t]) simp
next
  case (Cons d doms)
  let ?pool = "dict_get dd d"
  have kd: "k \<le> int (length ?pool)" using Cons.prems(3) by simp
  from random_sample_total [OF Cons.prems(2) kd, of t]
  obtain sel t1 where rs: "random_sample ?pool k t = Inr (sel, t1)" by blast
  from remove_loop_props [OF random_sample_Inr(4) [OF rs]]
  obtain rest where rm: "remove_loop sel ?pool = Inr rest" by blast
  define e0 where "e0 = \<lparr> dr_label = d, dr_pool = ?pool, dr_selected = sel, dr_rest = rest \<rparr>"
  define dd1 where "dd1 = dict_set d rest dd"
  define stop1 where "stop1 = (if int (length rest) < k then True else stop)"
  have step: "domain_loop k (d # doms) (dd, final, stop, draws) t
      = domain_loop k doms (dd1, final @ sel, stop1, draws @ [e0]) t1"
    using rs rm by (simp add: Let_def e0_def dd1_def stop1_def)
  have d: "distinct doms" "d \<notin> set doms" using Cons.prems(1) by simp_all
  have pools: "\<forall>l\<in>set doms. k \<le> int (length (dict_get dd1 l))"
  proof
    fix l assume l: "l \<in> set doms"
    with d(2) have "l \<noteq> d" by auto
    then have "dict_get dd1 l = dict_get dd l" by (simp add: dd1_def dict_get_dict_set)
    with Cons.prems(3) l show "k \<le> int (length (dict_get dd1 l))" by simp
  qed
  from Cons.IH [OF d(1) Cons.prems(2) pools, of "final @ sel" stop1 "draws @ [e0]" t1]
  obtain dd' evs t' where ih:
    "domain_loop k doms (dd1, final @ sel, stop1, draws @ [e0]) t1
        = Inr ((dd', (final @ sel) @ concat (map dr_selected evs),
                (stop1 \<or> (\<exists>e\<in>set evs. int (length (dr_rest e)) < k)), (draws @ [e0]) @ evs), t')"
    "map dr_label evs = doms"
    "\<forall>e\<in>set evs. int (length (dr_selected e)) = k"
    by blast
  have e0: "dr_label e0 = d" "dr_selected e0 = sel" "dr_rest e0 = rest" by (simp_all add: e0_def)
  have fl: "(stop1 \<or> (\<exists>e\<in>set evs. int (length (dr_rest e)) < k))
      = (stop \<or> (\<exists>e\<in>set (e0 # evs). int (length (dr_rest e)) < k))"
    by (auto simp add: stop1_def e0)
  have "domain_loop k (d # doms) (dd, final, stop, draws) t
      = Inr ((dd', final @ concat (map dr_selected (e0 # evs)),
                (stop \<or> (\<exists>e\<in>set (e0 # evs). int (length (dr_rest e)) < k)), draws @ (e0 # evs)), t')"
    unfolding step ih(1) fl by (simp add: e0)
  moreover have "map dr_label (e0 # evs) = d # doms" using ih(2) by (simp add: e0)
  moreover have "\<forall>e\<in>set (e0 # evs). int (length (dr_selected e)) = k"
    using ih(3) random_sample_Inr(3) [OF rs] by (simp add: e0)
  ultimately show ?case by (intro exI [of _ dd'] exI [of _ "e0 # evs"] exI [of _ t'] conjI)
qed


lemma sampling_loop_round:
  assumes "random_sample (rds_domains s) (rds_n_domain s) t = Inr (sel, t1)"
    and "domain_loop (rds_n_img_per_domain s) sel (dd, final, False, []) t1
           = Inr ((dd', final', flag, draws), t2)"
  shows "sampling_loop (Suc fuel) s (dd, final, rounds) t
           = (if flag then Some (Inr ((final', rounds @ [draws]), t2))
              else sampling_loop fuel s (dd', final', rounds @ [draws]) t2)"
  using assms by simp

lemma random_sample_complete:
  assumes "distinct pop" and "distinct res" and "set res \<subseteq> set pop"
  shows "\<exists>t. random_sample pop (int (length res)) t = Inr (res, [])"
proof -
  from sample_pool_complete [OF assms] obtain t
    where t: "sample_pool (length res) pop t = (res, [])" by blast
  have "length res = card (set res)" using assms(2) by (simp add: distinct_card)
  also have "\<dots> \<le> card (set pop)" using assms(3) by (simp add: card_mono)
  also have "\<dots> \<le> length pop" by (rule card_length)
  finally have "length res \<le> length pop" .
  then have "random_sample pop (int (length res)) t = Inr (res, [])"
    using t by (simp add: random_sample_def)
  then show ?thesis by blast
qed

lemma balanced_init_structure:
  assumes init: "balanced_init label fuel0 ds bs nd t0 = Some (Inr (s, t0'))"
  shows "distinct (rds_domains s)" and "set (rds_domains s) = label ` set ds"
    and "0 < rds_n_domain s" and "rds_n_domain s \<le> int (length (rds_domains s))"
    and "0 \<le> rds_n_img_per_domain s"
proof -
  note i = balanced_init_Inr [OF init]
  show d: "distinct (rds_domains s)" and "set (rds_domains s) = label ` set ds"
    using group_index_keys [of label ds] by (simp_all add: i(2))
  show n: "0 < rds_n_domain s" by (rule i(3))
  from i(7) obtain out where it: "balanced_iter fuel0 s t0 = Some (Inr (out, t0'))" by blast
  have "\<exists>rounds. balanced_rounds fuel0 s t0 = Some (Inr ((out, rounds), t0'))"
  proof (cases "balanced_rounds fuel0 s t0")
    case None
    with it show ?thesis by (simp add: balanced_iter_def)
  next
    case (Some z)
    show ?thesis
    proof (cases z)
      case (Inl e)
      with it Some show ?thesis by (simp add: balanced_iter_def)
    next
      case (Inr x)
      obtain fi rounds t' where x: "x = ((fi, rounds), t')" by (cases x) auto
      with it Some Inr show ?thesis by (simp add: balanced_iter_def)
    qed
  qed
  then obtain rounds where p: "balanced_rounds fuel0 s t0 = Some (Inr ((out, rounds), t0'))"
    by blast
  note r = balanced_rounds_props [OF init p]
  from r(1) obtain r0 where r0: "r0 \<in> set rounds" by (cases rounds) auto
  with r(3) have l: "int (length r0) = rds_n_domain s" "distinct (map dr_label r0)"
    "set (map dr_label r0) \<subseteq> set (rds_domains s)" by blast+
  have "length (map dr_label r0) = card (set (map dr_label r0))"
    using l(2) by (simp only: distinct_card)
  also have "\<dots> \<le> card (set (rds_domains s))" using l(3) by (simp only: card_mono List.finite_set)
  also have "\<dots> \<le> length (rds_domains s)" by (rule card_length)
  finally have "length (map dr_label r0) \<le> length (rds_domains s)" .
  with l(1) show "rds_n_domain s \<le> int (length (rds_domains s))" by simp
  from l(1) n obtain e where e: "e \<in> set r0" by (cases r0) auto
  with r0 have "e \<in> set (concat rounds)" by auto
  with r(4) have "int (length (dr_selected e)) = rds_n_img_per_domain s" by blast
  then show "0 \<le> rds_n_img_per_domain s" by linarith
qed

lemma sampling_loop_short_pool:
  assumes "random_sample (rds_domains s) (rds_n_domain s) t = Inr (sel, t1)"
    and "l \<in> set sel" and "int (length (dict_get dd l)) < rds_n_img_per_domain s"
  shows "sampling_loop (Suc fuel) s (dd, final, rounds) t = Some (Inl ValueError)"
  using assms(1) domain_loop_short_pool [OF assms(2,3), of final False "[]" t1]
  by simp

text \<open>
  Claim C3, amended. A sampler built by \<open>__init__\<close> has as its labels the distinct
  labels of the data source, \<open>0 < n_domain \<le>\<close> their number and a non-negative
  \<open>n_img_per_domain\<close>. For every sampler of that shape, from any pools and on any
  tape, one turn of the loop \<open>while not stop_sampling\<close> goes as follows. It selects
  \<open>n_domain\<close> distinct labels from the full list of labels: the pools are not read
  for the selection, and every list of \<open>n_domain\<close> distinct labels is selected on
  some tape. If every selected label holds at least \<open>n_img_per_domain\<close> indices,
  the round completes: each selected label in turn gives \<open>n_img_per_domain\<close>
  indices to the output, also after a draw that has left a pool below
  \<open>n_img_per_domain\<close>; only then is the flag read, and the loop returns if some draw
  of the round left its pool short and starts the next round otherwise. If some
  selected label holds fewer than \<open>n_img_per_domain\<close> indices, the round raises
  ValueError, whether or not an earlier draw of the round has set the flag. The loop
  over the selected labels never reads the flag: started with the flag set it does
  what it does with the flag unset.
\<close>

theorem balanced_round_selection:
  "(balanced_init label fuel0 ds bs nd t0 = Some (Inr (s, t0')) \<longrightarrow>
      distinct (rds_domains s) \<and> set (rds_domains s) = label ` set ds
    \<and> 0 < rds_n_domain s \<and> rds_n_domain s \<le> int (length (rds_domains s))
    \<and> 0 \<le> rds_n_img_per_domain s)
   \<and> (distinct (rds_domains s)
      \<and> 0 \<le> rds_n_domain s \<and> rds_n_domain s \<le> int (length (rds_domains s))
      \<and> 0 \<le> rds_n_img_per_domain s \<longrightarrow>
        (\<exists>sel t1.
            random_sample (rds_domains s) (rds_n_domain s) t = Inr (sel, t1)
          \<and> int (length sel) = rds_n_domain s \<and> distinct sel
          \<and> set sel \<subseteq> set (rds_domains s)
          \<and> (\<forall>dd final_idxs rounds fuel.
                ((\<forall>d\<in>set sel. rds_n_img_per_domain s \<le> int (length (dict_get dd d))) \<longrightarrow>
                   (\<exists>dd' draws t2.
                       domain_loop (rds_n_img_per_domain s) sel (dd, final_idxs, False, []) t1
                         = Inr ((dd', final_idxs @ concat (map dr_selected draws),
                                 (\<exists>e\<in>set draws.
                                     int (length (dr_rest e)) < rds_n_img_per_domain s),
                                 draws), t2)
                     \<and> map dr_label draws = sel
                     \<and> (\<forall>e\<in>set draws.
                           int (length (dr_selected e)) = rds_n_img_per_domain s)
                     \<and> sampling_loop (Suc fuel) s (dd, final_idxs, rounds) t
                         = (if \<exists>e\<in>set draws.
                                  int (length (dr_rest e)) < rds_n_img_per_domain s
                            then Some (Inr ((final_idxs @ concat (map dr_selected draws),
                                             rounds @ [draws]), t2))
                            else sampling_loop fuel s
                                   (dd', final_idxs @ concat (map dr_selected draws),
                                    rounds @ [draws]) t2)))
              \<and> ((\<exists>d\<in>set sel. int (length (dict_get dd d)) < rds_n_img_per_domain s) \<longrightarrow>
                   sampling_loop (Suc fuel) s (dd, final_idxs, rounds) t
                     = Some (Inl ValueError))))
      \<and> (\<forall>sel. distinct sel \<and> set sel \<subseteq> set (rds_domains s)
                 \<and> int (length sel) = rds_n_domain s \<longrightarrow>
               (\<exists>t. random_sample (rds_domains s) (rds_n_domain s) t = Inr (sel, []))))
   \<and> (\<forall>k doms dd final_idxs draws t.
         domain_loop k doms (dd, final_idxs, True, draws) t
           = map_sum id (\<lambda>((dd', final_idxs', stop', draws'), t').
                            ((dd', final_idxs', True, draws'), t'))
               (domain_loop k doms (dd, final_idxs, False, draws) t))"
proof -
  let ?k = "rds_n_img_per_domain s"
  have A: "distinct (rds_domains s) \<and> set (rds_domains s) = label ` set ds
    \<and> 0 < rds_n_domain s \<and> rds_n_domain s \<le> int (length (rds_domains s))
    \<and> 0 \<le> ?k"
    if "balanced_init label fuel0 ds bs nd t0 = Some (Inr (s, t0'))"
    using balanced_init_structure [OF that] by (intro conjI)
  have B: "\<exists>sel t1.
            random_sample (rds_domains s) (rds_n_domain s) t = Inr (sel, t1)
          \<and> int (length sel) = rds_n_domain s \<and> distinct sel
          \<and> set sel \<subseteq> set (rds_domains s)
          \<and> (\<forall>dd final_idxs rounds fuel.
                ((\<forall>d\<in>set sel. ?k \<le> int (length (dict_get dd d))) \<longrightarrow>
                   (\<exists>dd' draws t2.
                       domain_loop ?k sel (dd, final_idxs, False, []) t1
                         = Inr ((dd', final_idxs @ concat (map dr_selected draws),
                                 (\<exists>e\<in>set draws. int (length (dr_rest e)) < ?k),
                                 draws), t2)
                     \<and> map dr_label draws = sel
                     \<and> (\<forall>e\<in>set draws. int (length (dr_selected e)) = ?k)
                     \<and> sampling_loop (Suc fuel) s (dd, final_idxs, rounds) t
                         = (if \<exists>e\<in>set draws. int (length (dr_rest e)) < ?k
                            then Some (Inr ((final_idxs @ concat (map dr_selected draws),
                                             rounds @ [draws]), t2))
                            else sampling_loop fuel s
                                   (dd', final_idxs @ concat (map dr_selected draws),
                                    rounds @ [draws]) t2)))
              \<and> ((\<exists>d\<in>set sel. int (length (dict_get dd d)) < ?k) \<longrightarrow>
                   sampling_loop (Suc fuel) s (dd, final_idxs, rounds) t
                     = Some (Inl ValueError)))"
    if st: "distinct (rds_domains s)" "0 \<le> rds_n_domain s"
      "rds_n_domain s \<le> int (length (rds_domains s))" "0 \<le> ?k"
  proof -
    from random_sample_total [OF st(2,3), of t] obtain sel t1
      where rs: "random_sample (rds_domains s) (rds_n_domain s) t = Inr (sel, t1)" by blast
    note r = random_sample_Inr [OF rs]
    have ds: "distinct sel" using r(6) st(1) by simp
    have full: "\<exists>dd' draws t2.
                       domain_loop ?k sel (dd, final_idxs, False, []) t1
                         = Inr ((dd', final_idxs @ concat (map dr_selected draws),
                                 (\<exists>e\<in>set draws. int (length (dr_rest e)) < ?k),
                                 draws), t2)
                     \<and> map dr_label draws = sel
                     \<and> (\<forall>e\<in>set draws. int (length (dr_selected e)) = ?k)
                     \<and> sampling_loop (Suc fuel) s (dd, final_idxs, rounds) t
                         = (if \<exists>e\<in>set draws. int (length (dr_rest e)) < ?k
                            then Some (Inr ((final_idxs @ concat (map dr_selected draws),
                                             rounds @ [draws]), t2))
                            else sampling_loop fuel s
                                   (dd', final_idxs @ concat (map dr_selected draws),
                                    rounds @ [draws]) t2)"
      if pools: "\<forall>d\<in>set sel. ?k \<le> int (length (dict_get dd d))"
      for dd final_idxs rounds fuel
    proof -
      from domain_loop_total [OF ds st(4) pools, of final_idxs False "[]" t1]
      obtain dd' draws t2 where dl:
        "domain_loop ?k sel (dd, final_idxs, False, []) t1
           = Inr ((dd', final_idxs @ concat (map dr_selected draws),
                   (\<exists>e\<in>set draws. int (length (dr_rest e)) < ?k), draws), t2)"
        and lab: "map dr_label draws = sel"
        and len: "\<forall>e\<in>set draws. int (length (dr_selected e)) = ?k"
        by auto
      note sl = sampling_loop_round [OF rs dl, of fuel rounds]
      from dl lab len sl show ?thesis
        by (intro exI [of _ dd'] exI [of _ draws] exI [of _ t2] conjI)
    qed
    have short: "sampling_loop (Suc fuel) s (dd, final_idxs, rounds) t = Some (Inl ValueError)"
      if "\<exists>d\<in>set sel. int (length (dict_get dd d)) < ?k" for dd final_idxs rounds fuel
    proof -
      from that obtain d where "d \<in> set sel" "int (length (dict_get dd d)) < ?k" by blast
      with rs show ?thesis by (rule sampling_loop_short_pool)
    qed
    from full short have both: "\<forall>dd final_idxs rounds fuel.
                ((\<forall>d\<in>set sel. ?k \<le> int (length (dict_get dd d))) \<longrightarrow>
                   (\<exists>dd' draws t2.
                       domain_loop ?k sel (dd, final_idxs, False, []) t1
                         = Inr ((dd', final_idxs @ concat (map dr_selected draws),
                                 (\<exists>e\<in>set draws. int (length (dr_rest e)) < ?k),
                                 draws), t2)
                     \<and> map dr_label draws = sel
                     \<and> (\<forall>e\<in>set draws. int (length (dr_selected e)) = ?k)
                     \<and> sampling_loop (Suc fuel) s (dd, final_idxs, rounds) t
                         = (if \<exists>e\<in>set draws. int (length (dr_rest e)) < ?k
                            then Some (Inr ((final_idxs @ concat (map dr_selected draws),
                                             rounds @ [draws]), t2))
                            else sampling_loop fuel s
                                   (dd', final_idxs @ concat (map dr_selected draws),
                                    rounds @ [draws]) t2)))
              \<and> ((\<exists>d\<in>set sel. int (length (dict_get dd d)) < ?k) \<longrightarrow>
                   sampling_loop (Suc fuel) s (dd, final_idxs, rounds) t
                     = Some (Inl ValueError))"
      by (intro allI conjI impI)
    from rs r(3) ds r(5) both show ?thesis
      by (intro exI [of _ sel] exI [of _ t1] conjI)
  qed
  have C: "\<forall>sel. distinct sel \<and> set sel \<subseteq> set (rds_domains s)
                 \<and> int (length sel) = rds_n_domain s \<longrightarrow>
               (\<exists>t. random_sample (rds_domains s) (rds_n_domain s) t = Inr (sel, []))"
    if st: "distinct (rds_domains s)"
  proof (intro allI impI)
    fix sel
    assume h: "distinct sel \<and> set sel \<subseteq> set (rds_domains s)
                 \<and> int (length sel) = rds_n_domain s"
    then have h1: "distinct sel" and h2: "set sel \<subseteq> set (rds_domains s)"
      and h3: "int (length sel) = rds_n_domain s" by simp_all
    from random_sample_complete [OF st h1 h2] h3
    show "\<exists>t. random_sample (rds_domains s) (rds_n_domain s) t = Inr (sel, [])" by simp
  qed
  have D: "\<forall>k doms dd final_idxs draws t.
         domain_loop k doms (dd, final_idxs, True, draws) t
           = map_sum id (\<lambda>((dd', final_idxs', stop', draws'), t').
                            ((dd', final_idxs', True, draws'), t'))
               (domain_loop k doms (dd, final_idxs, False, draws) t)"
    by (intro allI) (rule domain_loop_flag)
  show ?thesis
  proof (intro conjI impI)
    assume i: "balanced_init label fuel0 ds bs nd t0 = Some (Inr (s, t0'))"
    from A [OF i] show "distinct (rds_domains s)" "set (rds_domains s) = label ` set ds"
      "0 < rds_n_domain s" "rds_n_domain s \<le> int (length (rds_domains s))" "0 \<le> ?k"
      by simp_all
  next
    assume st: "distinct (rds_domains s)
      \<and> 0 \<le> rds_n_domain s \<and> rds_n_domain s \<le> int (length (rds_domains s))
      \<and> 0 \<le> ?k"
    then have st': "distinct (rds_domains s)" "0 \<le> rds_n_domain s"
      "rds_n_domain s \<le> int (length (rds_domains s))" "0 \<le> ?k" by simp_all
    from B [OF st'] show "\<exists>sel t1.
            random_sample (rds_domains s) (rds_n_domain s) t = Inr (sel, t1)
          \<and> int (length sel) = rds_n_domain s \<and> distinct sel
          \<and> set sel \<subseteq> set (rds_domains s)
          \<and> (\<forall>dd final_idxs rounds fuel.
                ((\<forall>d\<in>set sel. ?k \<le> int (length (dict_get dd d))) \<longrightarrow>
                   (\<exists>dd' draws t2.
                       domain_loop ?k sel (dd, final_idxs, False, []) t1
                         = Inr ((dd', final_idxs @ concat (map dr_selected draws),
                                 (\<exists>e\<in>set draws. int (length (dr_rest e)) < ?k),
                                 draws), t2)
                     \<and> map dr_label draws = sel
                     \<and> (\<forall>e\<in>set draws. int (length (dr_selected e)) = ?k)
                     \<and> sampling_loop (Suc fuel) s (dd, final_idxs, rounds) t
                         = (if \<exists>e\<in>set draws. int (length (dr_rest e)) < ?k
                            then Some (Inr ((final_idxs @ concat (map dr_selected draws),
                                             rounds @ [draws]), t2))
                            else sampling_loop fuel s
                                   (dd', final_idxs @ concat (map dr_selected draws),
                                    rounds @ [draws]) t2)))
              \<and> ((\<exists>d\<in>set sel. int (length (dict_get dd d)) < ?k) \<longrightarrow>
                   sampling_loop (Suc fuel) s (dd, final_idxs, rounds) t
                     = Some (Inl ValueError)))" .
    from C [OF st'(1)] show "\<forall>sel. distinct sel \<and> set sel \<subseteq> set (rds_domains s)
                 \<and> int (length sel) = rds_n_domain s \<longrightarrow>
               (\<exists>t. random_sample (rds_domains s) (rds_n_domain s) t = Inr (sel, []))" .
  next
    show "\<forall>k doms dd final_idxs draws t.
         domain_loop k doms (dd, final_idxs, True, draws) t
           = map_sum id (\<lambda>((dd', final_idxs', stop', draws'), t').
                            ((dd', final_idxs', True, draws'), t'))
               (domain_loop k doms (dd, final_idxs, False, draws) t)" by (rule D)
  qed
qed

text \<open>
  Five items from the cameras \<open>0, 0, 1, 1, 2\<close>, batch size four, two cameras for each
  round. A round on cameras 0 and 1 empties the pool of camera 0 with its first draw,
  draws from camera 1 all the same, and ends the pass. A round on cameras 0 and 2, where
  camera 2 holds one image, raises.
\<close>

theorem balanced_round_selection_witness:
  "\<exists>s. balanced_init camid 5 five_items 4 (Some 2) [0, 1] = Some (Inr (s, []))
     \<and> rds_domains s = [0, 1, 2] \<and> rds_n_domain s = 2 \<and> rds_n_img_per_domain s = 2
     \<and> rds_domain_dict s = [(0, [0, 1]), (1, [2, 3]), (2, [4])]
     \<and> distinct (rds_domains s) \<and> set (rds_domains s) = camid ` set five_items
     \<and> random_sample (rds_domains s) (rds_n_domain s) [0, 1] = Inr ([0, 1], [])
     \<and> (\<exists>draws. sampling_loop (Suc 0) s (rds_domain_dict s, [], []) [0, 1]
                    = Some (Inr (([0, 1, 2, 3], [draws]), []))
          \<and> map dr_label draws = [0, 1] \<and> map dr_rest draws = [[], []])
     \<and> random_sample (rds_domains s) (rds_n_domain s) [] = Inr ([0, 2], [])
     \<and> int (length (dict_get (rds_domain_dict s) 2)) < rds_n_img_per_domain s
     \<and> sampling_loop (Suc 0) s (rds_domain_dict s, [], []) [] = Some (Inl ValueError)"
proof -
  define s where "s = \<lparr> rds_data_source = five_items,
     rds_domain_dict = [(0, [0, 1]), (1, [2, 3]), (2, [4])], rds_domains = [0, 1, 2],
     rds_n_img_per_domain = 2, rds_batch_size = 4, rds_n_domain = 2, rds_length = 4 \<rparr>"
  define r where "r =
     [\<lparr>dr_label = 0, dr_pool = [0, 1], dr_selected = [0, 1], dr_rest = []\<rparr>,
      \<lparr>dr_label = 1, dr_pool = [2, 3], dr_selected = [2, 3], dr_rest = []\<rparr>]"
  have i: "balanced_init camid 5 five_items 4 (Some 2) [0, 1] = Some (Inr (s, []))"
    unfolding s_def by code_simp
  have f: "rds_domains s = [0, 1, 2]" "rds_n_domain s = 2" "rds_n_img_per_domain s = 2"
    "rds_domain_dict s = [(0, [0, 1]), (1, [2, 3]), (2, [4])]"
    by (simp_all add: s_def)
  note T = balanced_round_selection [where s = s and label = camid and ds = five_items
      and ?fuel0.0 = 5 and bs = 4 and nd = "Some 2" and ?t0.0 = "[0, 1]" and t0' = "[]"]
  from T [where t = "[]"] i have st: "distinct (rds_domains s)"
    "set (rds_domains s) = camid ` set five_items" "0 < rds_n_domain s"
    "rds_n_domain s \<le> int (length (rds_domains s))" "0 \<le> rds_n_img_per_domain s"
    by simp_all
  have st': "distinct (rds_domains s)
      \<and> 0 \<le> rds_n_domain s \<and> rds_n_domain s \<le> int (length (rds_domains s))
      \<and> 0 \<le> rds_n_img_per_domain s"
    using st by simp
  have rs1: "random_sample (rds_domains s) (rds_n_domain s) [0, 1] = Inr ([0, 1], [])"
    unfolding s_def by code_simp
  have rs2: "random_sample (rds_domains s) (rds_n_domain s) [] = Inr ([0, 2], [])"
    unfolding s_def by code_simp
  have dl: "domain_loop (rds_n_img_per_domain s) [0, 1] (rds_domain_dict s, [], False, []) []
      = Inr (([(0, []), (1, []), (2, [4])], [0, 1, 2, 3], True, r), [])"
    unfolding s_def r_def by code_simp
  have pools: "\<forall>d\<in>set [0, 1]. rds_n_img_per_domain s \<le> int (length (dict_get (rds_domain_dict s) d))"
    by (simp add: f dict_get_def)
  have short: "int (length (dict_get (rds_domain_dict s) 2)) < rds_n_img_per_domain s"
    by (simp add: f dict_get_def)
  note T1 = T [where t = "[0, 1]", THEN conjunct2, THEN conjunct1, THEN mp, OF st', THEN conjunct1]
  note T2 = T [where t = "[]", THEN conjunct2, THEN conjunct1, THEN mp, OF st', THEN conjunct1]
  have f6: "\<exists>draws. sampling_loop (Suc 0) s (rds_domain_dict s, [], []) [0, 1]
                    = Some (Inr (([0, 1, 2, 3], [draws]), []))
          \<and> map dr_label draws = [0, 1] \<and> map dr_rest draws = [[], []]"
  proof -
    from T1 obtain sel t1
      where a: "random_sample (rds_domains s) (rds_n_domain s) [0, 1] = Inr (sel, t1)"
      and R: "\<forall>dd final_idxs rounds fuel.
                ((\<forall>d\<in>set sel. rds_n_img_per_domain s \<le> int (length (dict_get dd d))) \<longrightarrow>
                   (\<exists>dd' draws t2.
                       domain_loop (rds_n_img_per_domain s) sel (dd, final_idxs, False, []) t1
                         = Inr ((dd', final_idxs @ concat (map dr_selected draws),
                                 (\<exists>e\<in>set draws.
                                     int (length (dr_rest e)) < rds_n_img_per_domain s),
                                 draws), t2)
                     \<and> map dr_label draws = sel
                     \<and> (\<forall>e\<in>set draws.
                           int (length (dr_selected e)) = rds_n_img_per_domain s)
                     \<and> sampling_loop (Suc fuel) s (dd, final_idxs, rounds) [0, 1]
                         = (if \<exists>e\<in>set draws.
                                  int (length (dr_rest e)) < rds_n_img_per_domain s
                            then Some (Inr ((final_idxs @ concat (map dr_selected draws),
                                             rounds @ [draws]), t2))
                            else sampling_loop fuel s
                                   (dd', final_idxs @ concat (map dr_selected draws),
                                    rounds @ [draws]) t2)))
              \<and> ((\<exists>d\<in>set sel. int (length (dict_get dd d)) < rds_n_img_per_domain s) \<longrightarrow>
                   sampling_loop (Suc fuel) s (dd, final_idxs, rounds) [0, 1]
                     = Some (Inl ValueError))"
      by (elim exE conjE)
    from a rs1 have e: "sel = [0, 1]" "t1 = []" by simp_all
    note R1 = R [unfolded e, THEN spec [of _ "rds_domain_dict s"], THEN spec [of _ "[]"],
        THEN spec [of _ "[]"], THEN spec [of _ 0], THEN conjunct1, THEN mp, OF pools]
    from R1 obtain dd' draws t2 where
      d1: "domain_loop (rds_n_img_per_domain s) [0, 1] (rds_domain_dict s, [], False, []) []
             = Inr ((dd', [] @ concat (map dr_selected draws),
                     (\<exists>e\<in>set draws. int (length (dr_rest e)) < rds_n_img_per_domain s),
                     draws), t2)"
      and d2: "map dr_label draws = [0, 1]"
      and d3: "sampling_loop (Suc 0) s (rds_domain_dict s, [], []) [0, 1]
                 = (if \<exists>e\<in>set draws. int (length (dr_rest e)) < rds_n_img_per_domain s
                    then Some (Inr (([] @ concat (map dr_selected draws), [] @ [draws]), t2))
                    else sampling_loop 0 s
                           (dd', [] @ concat (map dr_selected draws), [] @ [draws]) t2)"
      by (elim exE conjE)
    have "Inr ((dd', [] @ concat (map dr_selected draws),
                     (\<exists>e\<in>set draws. int (length (dr_rest e)) < rds_n_img_per_domain s),
                     draws), t2)
         = (Inr (([(0, []), (1, []), (2, [4])], [0, 1, 2, 3], True, r), [])
             :: py_error + ((int \<times> nat list) list \<times> nat list \<times> bool \<times> draw list) \<times> tape)"
      using d1 [symmetric] dl by (rule trans)
    then have v: "draws = r" "t2 = []"
      "(\<exists>e\<in>set draws. int (length (dr_rest e)) < rds_n_img_per_domain s) = True"
      "[] @ concat (map dr_selected draws) = [0, 1, 2, 3]"
      by auto
    have "sampling_loop (Suc 0) s (rds_domain_dict s, [], []) [0, 1]
                    = Some (Inr (([0, 1, 2, 3], [r]), []))"
      unfolding d3 by (simp add: v(1,2) r_def f)
    moreover have "map dr_label r = [0, 1]" "map dr_rest r = [[], []]" by (simp_all add: r_def)
    ultimately show ?thesis by (intro exI [of _ r] conjI)
  qed
  have f7: "sampling_loop (Suc 0) s (rds_domain_dict s, [], []) [] = Some (Inl ValueError)"
  proof -
    from T2 obtain sel t1
      where a: "random_sample (rds_domains s) (rds_n_domain s) [] = Inr (sel, t1)"
      and R: "\<forall>dd final_idxs rounds fuel.
                ((\<forall>d\<in>set sel. rds_n_img_per_domain s \<le> int (length (dict_get dd d))) \<longrightarrow>
                   (\<exists>dd' draws t2.
                       domain_loop (rds_n_img_per_domain s) sel (dd, final_idxs, False, []) t1
                         = Inr ((dd', final_idxs @ concat (map dr_selected draws),
                                 (\<exists>e\<in>set draws.
                                     int (length (dr_rest e)) < rds_n_img_per_domain s),
                                 draws), t2)
                     \<and> map dr_label draws = sel
                     \<and> (\<forall>e\<in>set draws.
                           int (length (dr_selected e)) = rds_n_img_per_domain s)
                     \<and> sampling_loop (Suc fuel) s (dd, final_idxs, rounds) []
                         = (if \<exists>e\<in>set draws.
                                  int (length (dr_rest e)) < rds_n_img_per_domain s
                            then Some (Inr ((final_idxs @ concat (map dr_selected draws),
                                             rounds @ [draws]), t2))
                            else sampling_loop fuel s
                                   (dd', final_idxs @ concat (map dr_selected draws),
                                    rounds @ [draws]) t2)))
              \<and> ((\<exists>d\<in>set sel. int (length (dict_get dd d)) < rds_n_img_per_domain s) \<longrightarrow>
                   sampling_loop (Suc fuel) s (dd, final_idxs, rounds) []
                     = Some (Inl ValueError))"
      by (elim exE conjE)
    from a rs2 have e: "sel = [0, 2]" by simp
    have m: "(2::int) \<in> set [0, 2]" by simp
    from m short have ex: "\<exists>d\<in>set [0, 2].
        int (length (dict_get (rds_domain_dict s) d)) < rds_n_img_per_domain s" by (rule bexI [rotated])
    from R [unfolded e, THEN spec [of _ "rds_domain_dict s"], THEN spec [of _ "[]"],
        THEN spec [of _ "[]"], THEN spec [of _ 0], THEN conjunct2, THEN mp, OF ex]
    show ?thesis .
  qed
  show ?thesis
    by (intro exI [of _ s] conjI; (fact i f st(1,2) rs1 rs2 short f6 f7))
qed

text \<open>
  Claim C3 as stated fails for a round that selects cameras 0 and 2 of that sampler:
  the draw from camera 0 leaves its pool empty and sets the flag, and the round does not
  complete, for the draw from camera 2 raises ValueError and the pass emits nothing.
\<close>

theorem round_raises_after_flag:
  "balanced_init camid 5 five_items 4 (Some 2) [0, 1]
     = Some (Inr (\<lparr> rds_data_source = five_items,
                      rds_domain_dict = [(0, [0, 1]), (1, [2, 3]), (2, [4])],
                      rds_domains = [0, 1, 2], rds_n_img_per_domain = 2,
                      rds_batch_size = 4, rds_n_domain = 2, rds_length = 4 \<rparr>, []))
   \<and> random_sample [0, 1, 2 :: int] 2 [] = Inr ([0, 2], [])
   \<and> domain_loop 2 [0] ([(0, [0, 1]), (1, [2, 3]), (2, [4])], [], False, []) []
       = Inr (([(0, []), (1, [2, 3]), (2, [4])], [0, 1], True,
               [\<lparr> dr_label = 0, dr_pool = [0, 1], dr_selected = [0, 1], dr_rest = [] \<rparr>]), [])
   \<and> domain_loop 2 [0, 2] ([(0, [0, 1]), (1, [2, 3]), (2, [4])], [], False, []) []
       = Inl ValueError
   \<and> balanced_iter 5
         \<lparr> rds_data_source = five_items,
            rds_domain_dict = [(0, [0, 1]), (1, [2, 3]), (2, [4])],
            rds_domains = [0, 1, 2], rds_n_img_per_domain = 2,
            rds_batch_size = 4, rds_n_domain = 2, rds_length = 4 \<rparr> []
       = Some (Inl ValueError)"
  by (intro conjI; code_simp)

subsection \<open>Preparing the chunks of the identity sampler\<close>

lemma shuffle_loop_mset:
  "i < length x \<Longrightarrow> shuffle_loop i x t = (y, t') \<Longrightarrow> mset y = mset x"
proof (induction i arbitrary: x t)
  case 0
  then show ?case by simp
next
  case (Suc i)
  obtain j t1 where rb: "randbelow (Suc i + 1) t = (j, t1)" by (cases "randbelow (Suc i + 1) t")
  have "j < Suc i + 1" using randbelow_less [of "Suc i + 1" t] rb by simp
  then have j: "j < length x" using Suc.prems(1) by simp
  let ?x = "x[Suc i := x ! j, j := x ! Suc i]"
  have sw: "mset ?x = mset x" using Suc.prems(1) j by (simp add: mset_swap)
  have "shuffle_loop i ?x t1 = (y, t')" using Suc.prems(2) rb by simp
  moreover have "i < length ?x" using Suc.prems(1) by simp
  ultimately have "mset y = mset ?x" by (rule Suc.IH [rotated])
  with sw show ?case by simp
qed

lemma random_shuffle_mset: "random_shuffle x t = (y, t') \<Longrightarrow> mset y = mset x"
proof (cases "x = []")
  case True
  then show "random_shuffle x t = (y, t') \<Longrightarrow> mset y = mset x"
    by (simp add: random_shuffle_def)
next
  case False
  then have "length x - 1 < length x" by simp
  then show "random_shuffle x t = (y, t') \<Longrightarrow> mset y = mset x"
    unfolding random_shuffle_def by (rule shuffle_loop_mset)
qed

lemma choice_loop_props:
  "a \<noteq> [] \<Longrightarrow> choice_loop k a t = (res, t') \<Longrightarrow> length res = k \<and> set res \<subseteq> set a"
proof (induction k arbitrary: t res t')
  case 0
  then show ?case by simp
next
  case (Suc k)
  obtain j t1 where rb: "randbelow (length a) t = (j, t1)" by (cases "randbelow (length a) t")
  obtain r2 t2 where cl: "choice_loop k a t1 = (r2, t2)" by (cases "choice_loop k a t1")
  have j: "j < length a" using randbelow_less [of "length a" t] rb Suc.prems(1) by simp
  from Suc.IH [OF Suc.prems(1) cl] have "length r2 = k" "set r2 \<subseteq> set a" by simp_all
  moreover have "res = a ! j # r2" using Suc.prems(2) rb cl by simp
  ultimately show ?case using j by simp
qed

lemma chunk_loop_nonpos:
  "ni \<le> 0 \<Longrightarrow> chunk_loop ni p idxs batch d = d"
  by (induction idxs arbitrary: batch) (simp_all add: Let_def)

lemma chunk_loop_props:
  assumes "0 < ni" and "int (length batch) < ni"
  shows "\<exists>cs. (\<forall>q. dict_get (chunk_loop ni p idxs batch d) q
                   = (if q = p then dict_get d p @ cs else dict_get d q))
           \<and> (\<forall>c\<in>set cs. int (length c) = ni \<and> set c \<subseteq> set batch \<union> set idxs)
           \<and> int (length cs) = (int (length batch) + int (length idxs)) div ni"
  using assms(2)
proof (induction idxs arbitrary: batch d)
  case Nil
  have "int (length batch) div ni = 0"
    using Nil assms(1) by (simp add: div_pos_pos_trivial)
  then show ?case by (intro exI [of _ "[]"]) simp
next
  case (Cons idx idxs)
  let ?b = "batch @ [idx]"
  show ?case
  proof (cases "int (length ?b) = ni")
    case True
    have e: "int (length ([]::nat list)) < ni" using assms(1) by simp
    from Cons.IH [OF e, of "dict_append p ?b d"] obtain cs where cs:
      "\<forall>q. dict_get (chunk_loop ni p idxs [] (dict_append p ?b d)) q
            = (if q = p then dict_get (dict_append p ?b d) p @ cs
               else dict_get (dict_append p ?b d) q)"
      "\<forall>c\<in>set cs. int (length c) = ni \<and> set c \<subseteq> set [] \<union> set idxs"
      "int (length cs) = (int (length ([]::nat list)) + int (length idxs)) div ni"
      by blast
    have run: "chunk_loop ni p (idx # idxs) batch d = chunk_loop ni p idxs [] (dict_append p ?b d)"
      using True by (simp add: Let_def)
    have a: "\<forall>q. dict_get (chunk_loop ni p (idx # idxs) batch d) q
                   = (if q = p then dict_get d p @ (?b # cs) else dict_get d q)"
      unfolding run using cs(1) by (simp add: dict_get_dict_append)
    have b: "\<forall>c\<in>set (?b # cs). int (length c) = ni \<and> set c \<subseteq> set batch \<union> set (idx # idxs)"
      using cs(2) True by auto
    have "int (length batch) + int (length (idx # idxs)) = int (length idxs) + ni * 1"
      using True by simp
    then have "(int (length batch) + int (length (idx # idxs))) div ni
        = (int (length idxs) + ni * 1) div ni"
      by (simp only:)
    also have "\<dots> = 1 + int (length idxs) div ni"
      using assms(1) by (subst div_mult_self2) auto
    finally have c: "int (length (?b # cs)) = (int (length batch) + int (length (idx # idxs))) div ni"
      using cs(3) by simp
    from a b c show ?thesis by blast
  next
    case False
    with Cons.prems have lt: "int (length ?b) < ni" by simp
    from Cons.IH [OF lt, of d] obtain cs where cs:
      "\<forall>q. dict_get (chunk_loop ni p idxs ?b d) q
            = (if q = p then dict_get d p @ cs else dict_get d q)"
      "\<forall>c\<in>set cs. int (length c) = ni \<and> set c \<subseteq> set ?b \<union> set idxs"
      "int (length cs) = (int (length ?b) + int (length idxs)) div ni"
      by blast
    have run: "chunk_loop ni p (idx # idxs) batch d = chunk_loop ni p idxs ?b d"
      using False by (simp add: Let_def)
    have a: "\<forall>q. dict_get (chunk_loop ni p (idx # idxs) batch d) q
                   = (if q = p then dict_get d p @ cs else dict_get d q)"
      unfolding run using cs(1) by simp
    have b: "\<forall>c\<in>set cs. int (length c) = ni \<and> set c \<subseteq> set batch \<union> set (idx # idxs)"
      using cs(2) by auto
    have c: "int (length cs) = (int (length batch) + int (length (idx # idxs))) div ni"
      using cs(3) by (simp add: algebra_simps)
    from a b c show ?thesis by blast
  qed
qed

lemma prepare_loop_props:
  assumes ni: "0 < ris_num_instances s"
    and "\<forall>p\<in>set ps. dict_get (ris_index_dic s) p \<noteq> []"
    and "distinct ps"
    and "\<forall>p\<in>set ps. dict_get d p = []"
    and "\<forall>p. \<forall>c\<in>set (dict_get d p). int (length c) = ris_num_instances s
            \<and> set c \<subseteq> set (dict_get (ris_index_dic s) p)"
  shows "\<exists>d' t'. prepare_loop s ps d t = Inr (d', t')
      \<and> (\<forall>p. p \<notin> set ps \<longrightarrow> dict_get d' p = dict_get d p)
      \<and> (\<forall>p\<in>set ps. int (length (dict_get d' p))
            = max (int (length (dict_get (ris_index_dic s) p))) (ris_num_instances s)
                div ris_num_instances s)
      \<and> (\<forall>p. \<forall>c\<in>set (dict_get d' p). int (length c) = ris_num_instances s
            \<and> set c \<subseteq> set (dict_get (ris_index_dic s) p))"
  using assms(2-)
proof (induction ps arbitrary: d t)
  case Nil
  then show ?case by simp
next
  case (Cons p ps)
  let ?ni = "ris_num_instances s"
  let ?g = "dict_get (ris_index_dic s) p"
  have g: "?g \<noteq> []" using Cons.prems(1) by simp
  obtain l1 t1 where c1: "(if int (length ?g) < ?ni then np_random_choice ?g ?ni t else Inr (?g, t))
      = Inr (l1, t1)" and l1: "set l1 \<subseteq> set ?g" "int (length l1) = max (int (length ?g)) ?ni"
  proof (cases "int (length ?g) < ?ni")
    case True
    obtain r t1 where cl: "choice_loop (nat ?ni) ?g t = (r, t1)" by (cases "choice_loop (nat ?ni) ?g t")
    from choice_loop_props [OF g cl] have "length r = nat ?ni" "set r \<subseteq> set ?g" by simp_all
    moreover have "np_random_choice ?g ?ni t = Inr (r, t1)"
      using g ni cl by (simp add: np_random_choice_def)
    ultimately show ?thesis using True ni that [of r t1] by (simp add: max_def)
  next
    case False
    then show ?thesis using that [of ?g t] by (simp add: max_def)
  qed
  obtain l2 t2 where sh: "random_shuffle l1 t1 = (l2, t2)" by (cases "random_shuffle l1 t1")
  from random_shuffle_mset [OF sh] have m: "mset l2 = mset l1" .
  then have l2: "set l2 \<subseteq> set ?g" "int (length l2) = max (int (length ?g)) ?ni"
    using l1 by (metis mset_eq_setD, metis mset_eq_length)
  define d1 where "d1 = chunk_loop ?ni p l2 [] d"
  have e: "int (length ([]::nat list)) < ?ni" using ni by simp
  from chunk_loop_props [OF ni e, of p l2 d] obtain cs where cs:
    "\<forall>q. dict_get d1 q = (if q = p then dict_get d p @ cs else dict_get d q)"
    "\<forall>c\<in>set cs. int (length c) = ?ni \<and> set c \<subseteq> set [] \<union> set l2"
    "int (length cs) = (int (length ([]::nat list)) + int (length l2)) div ?ni"
    unfolding d1_def by blast
  have dp: "dict_get d p = []" using Cons.prems(3) by simp
  have d1p: "dict_get d1 p = cs" using cs(1) dp by simp
  have d1q: "q \<noteq> p \<Longrightarrow> dict_get d1 q = dict_get d q" for q using cs(1) by simp
  have run: "prepare_loop s (p # ps) d t = prepare_loop s ps d1 t2"
    using c1 sh by (simp add: Let_def d1_def)
  have pn: "p \<notin> set ps" and dps: "distinct ps" using Cons.prems(2) by simp_all
  have a1: "\<forall>p\<in>set ps. dict_get (ris_index_dic s) p \<noteq> []" using Cons.prems(1) by simp
  have a3: "\<forall>q\<in>set ps. dict_get d1 q = []"
  proof
    fix q assume q: "q \<in> set ps"
    with pn have "q \<noteq> p" by auto
    then have "dict_get d1 q = dict_get d q" by (rule d1q)
    with q Cons.prems(3) show "dict_get d1 q = []" by simp
  qed
  have a4: "\<forall>q. \<forall>c\<in>set (dict_get d1 q). int (length c) = ?ni
            \<and> set c \<subseteq> set (dict_get (ris_index_dic s) q)"
  proof (intro allI ballI)
    fix q c assume c: "c \<in> set (dict_get d1 q)"
    show "int (length c) = ?ni \<and> set c \<subseteq> set (dict_get (ris_index_dic s) q)"
    proof (cases "q = p")
      case True
      with c d1p have "c \<in> set cs" by simp
      with cs(2) l2(1) True show ?thesis by auto
    next
      case False
      with c d1q Cons.prems(4) show ?thesis by simp
    qed
  qed
  from Cons.IH [OF a1 dps a3 a4, of t2] obtain d' t' where ih:
    "prepare_loop s ps d1 t2 = Inr (d', t')"
    "\<forall>q. q \<notin> set ps \<longrightarrow> dict_get d' q = dict_get d1 q"
    "\<forall>q\<in>set ps. int (length (dict_get d' q))
            = max (int (length (dict_get (ris_index_dic s) q))) ?ni div ?ni"
    "\<forall>q. \<forall>c\<in>set (dict_get d' q). int (length c) = ?ni
            \<and> set c \<subseteq> set (dict_get (ris_index_dic s) q)"
    by blast
  have b1: "prepare_loop s (p # ps) d t = Inr (d', t')" using run ih(1) by simp
  have b2: "\<forall>q. q \<notin> set (p # ps) \<longrightarrow> dict_get d' q = dict_get d q"
    using ih(2) d1q by simp
  have "dict_get d' p = cs" using ih(2) pn d1p by simp
  then have "int (length (dict_get d' p)) = max (int (length ?g)) ?ni div ?ni"
    using cs(3) l2(2) by simp
  then have b3: "\<forall>q\<in>set (p # ps). int (length (dict_get d' q))
            = max (int (length (dict_get (ris_index_dic s) q))) ?ni div ?ni"
    using ih(3) by simp
  from b1 b2 b3 ih(4) show ?case by blast
qed

lemma prepare_loop_neg:
  "ris_num_instances s < 0 \<Longrightarrow> \<exists>t'. prepare_loop s ps d t = Inr (d, t')"
proof (induction ps arbitrary: t)
  case Nil
  show ?case by simp
next
  case (Cons p ps)
  let ?g = "dict_get (ris_index_dic s) p"
  obtain l2 t2 where sh: "random_shuffle ?g t = (l2, t2)" by (cases "random_shuffle ?g t")
  have "\<not> int (length ?g) < ris_num_instances s" using Cons.prems by simp
  then have "prepare_loop s (p # ps) d t = prepare_loop s ps d t2"
    using sh Cons.prems by (simp add: Let_def chunk_loop_nonpos)
  with Cons.IH [OF Cons.prems, of t2] show ?case by simp
qed

subsection \<open>Consuming the chunks\<close>

lemma pop_loop_Inr:
  assumes "pop_loop sel (d, avai, final) = Inr (d', avai', final')"
    and "distinct avai" and "\<forall>p\<in>set avai. dict_get d p \<noteq> []"
  shows "\<exists>blocks. final' = final @ concat (map snd blocks) \<and> map fst blocks = sel
     \<and> (\<forall>p. map snd (filter (\<lambda>x. fst x = p) blocks) @ dict_get d' p = dict_get d p)
     \<and> distinct avai' \<and> (\<forall>p\<in>set avai'. dict_get d' p \<noteq> [])"
  using assms
proof (induction sel arbitrary: d avai final)
  case Nil
  then show ?case by simp
next
  case (Cons p sel)
  from Cons.prems(1) obtain b rest where g: "dict_get d p = b # rest"
    by (cases "dict_get d p") simp_all
  define d1 where "d1 = dict_set p rest d"
  define avai1 where "avai1 = (if rest = [] then remove1 p avai else avai)"
  have run: "pop_loop sel (d1, avai1, final @ b) = Inr (d', avai', final')"
    using Cons.prems(1) g
    by (auto simp add: Let_def d1_def avai1_def split: if_splits)
  have i1: "distinct avai1" using Cons.prems(2) by (simp add: avai1_def)
  have i2: "\<forall>q\<in>set avai1. dict_get d1 q \<noteq> []"
  proof
    fix q assume q: "q \<in> set avai1"
    show "dict_get d1 q \<noteq> []"
    proof (cases "q = p")
      case True
      with q Cons.prems(2) have "rest \<noteq> []" by (auto simp add: avai1_def split: if_splits)
      with True show ?thesis by (simp add: d1_def dict_get_dict_set)
    next
      case False
      moreover from q have "q \<in> set avai"
        using set_remove1_subset [of p avai] by (auto simp add: avai1_def split: if_splits)
      ultimately show ?thesis using Cons.prems(3) by (simp add: d1_def dict_get_dict_set)
    qed
  qed
  from Cons.IH [OF run i1 i2] obtain blocks where bl:
    "final' = (final @ b) @ concat (map snd blocks)" "map fst blocks = sel"
    "\<forall>q. map snd (filter (\<lambda>x. fst x = q) blocks) @ dict_get d' q = dict_get d1 q"
    "distinct avai'" "\<forall>q\<in>set avai'. dict_get d' q \<noteq> []"
    by blast
  have c1: "final' = final @ concat (map snd ((p, b) # blocks))" using bl(1) by simp
  have c2: "map fst ((p, b) # blocks) = p # sel" using bl(2) by simp
  have c3: "\<forall>q. map snd (filter (\<lambda>x. fst x = q) ((p, b) # blocks)) @ dict_get d' q = dict_get d q"
    using bl(3) g by (auto simp add: d1_def dict_get_dict_set split: if_splits)
  from c1 c2 c3 bl(4,5) show ?case by (intro exI [of _ "(p, b) # blocks"] conjI)
qed

lemma avai_loop_Inr:
  assumes "avai_loop fuel npb (d, avai, final) t = Some (Inr (out, t'))"
    and "distinct avai" and "\<forall>p\<in>set avai. dict_get d p \<noteq> []"
  shows "\<exists>blocks. out = final @ concat (map snd blocks)
     \<and> (\<forall>p. \<exists>rest. map snd (filter (\<lambda>x. fst x = p) blocks) @ rest = dict_get d p)"
  using assms
proof (induction fuel arbitrary: d avai final t)
  case 0
  then show ?case by simp
next
  case (Suc fuel)
  show ?case
  proof (cases "npb \<le> int (length avai)")
    case False
    with Suc.prems(1) have "out = final" by simp
    then show ?thesis by (intro exI [of _ "[]"]) simp
  next
    case True
    with Suc.prems(1) obtain sel t1 where rs: "random_sample avai npb t = Inr (sel, t1)"
      by (auto split: sum.splits)
    with Suc.prems(1) True obtain d1 avai1 final1
      where pl: "pop_loop sel (d, avai, final) = Inr (d1, avai1, final1)"
      by (auto split: sum.splits)
    from Suc.prems(1) True rs pl
    have rec: "avai_loop fuel npb (d1, avai1, final1) t1 = Some (Inr (out, t'))" by simp
    from pop_loop_Inr [OF pl Suc.prems(2,3)] obtain b1 where b1:
      "final1 = final @ concat (map snd b1)"
      "\<forall>p. map snd (filter (\<lambda>x. fst x = p) b1) @ dict_get d1 p = dict_get d p"
      "distinct avai1" "\<forall>p\<in>set avai1. dict_get d1 p \<noteq> []"
      by blast
    from Suc.IH [OF rec b1(3,4)] obtain b2 where b2:
      "out = final1 @ concat (map snd b2)"
      "\<forall>p. \<exists>rest. map snd (filter (\<lambda>x. fst x = p) b2) @ rest = dict_get d1 p"
      by blast
    have o: "out = final @ concat (map snd (b1 @ b2))" using b1(1) b2(1) by simp
    have r: "\<exists>rest. map snd (filter (\<lambda>x. fst x = p) (b1 @ b2)) @ rest = dict_get d p" for p
    proof -
      from b2(2) obtain rest where "map snd (filter (\<lambda>x. fst x = p) b2) @ rest = dict_get d1 p"
        by blast
      with b1(2) have "map snd (filter (\<lambda>x. fst x = p) (b1 @ b2)) @ rest = dict_get d p"
        by (metis append.assoc filter_append map_append)
      then show ?thesis by blast
    qed
    from r have "\<forall>p. \<exists>rest. map snd (filter (\<lambda>x. fst x = p) (b1 @ b2)) @ rest = dict_get d p"
      by (rule allI)
    with o show ?thesis by (intro exI [of _ "b1 @ b2"] conjI)
  qed
qed

lemma avai_loop_empty_dict:
  "npb \<le> int (length avai) \<Longrightarrow> avai_loop fuel npb ([], avai, final) t \<noteq> Some (Inr r)"
proof (induction fuel arbitrary: t)
  case 0
  show ?case by simp
next
  case (Suc fuel)
  show ?case
  proof (cases "random_sample avai npb t")
    case (Inl e)
    with Suc.prems show ?thesis by simp
  next
    case (Inr x)
    obtain sel t1 where x: "x = (sel, t1)" by (cases x)
    show ?thesis
    proof (cases sel)
      case Nil
      with Inr x Suc.prems Suc.IH [OF Suc.prems, of t1] show ?thesis by simp
    next
      case (Cons p ps)
      with Inr x Suc.prems show ?thesis by simp
    qed
  qed
qed

subsection \<open>Constructed identity samplers\<close>

lemma RandomIdentitySampler_init_Inr:
  assumes "RandomIdentitySampler_init ds bs ni = Inr s"
  shows "ni \<le> bs" and "ni \<noteq> 0"
    and "ris_num_instances s = ni"
    and "ris_num_pids_per_batch s = bs div ni"
    and "ris_index_dic s = group_index pid ds"
    and "ris_pids s = map fst (group_index pid ds)"
    and "bs div ni \<le> int (length (ris_pids s))"
    and "ris_length s = length_loop ni (ris_index_dic s) (ris_pids s) 0"
  using assms
  by (auto simp add: RandomIdentitySampler_init_def Let_def split: if_splits)

lemma identity_blocks:
  assumes init: "RandomIdentitySampler_init ds bs ni = Inr s"
    and pass: "RandomIdentitySampler_iter fuel s t = Some (Inr (out, t'))"
  shows "0 < ni \<and> (\<exists>blocks. out = concat (map snd blocks)
      \<and> (\<forall>x\<in>set blocks. fst x \<in> set (ris_pids s) \<and> int (length (snd x)) = ni
            \<and> set (snd x) \<subseteq> set (dict_get (ris_index_dic s) (fst x)))
      \<and> (\<forall>p. int (length (filter (\<lambda>x. fst x = p) blocks))
            \<le> max (int (length (dict_get (ris_index_dic s) p))) ni div ni))"
proof -
  note i = RandomIdentitySampler_init_Inr [OF init]
  have pos: "0 < ni"
  proof (rule ccontr)
    assume "\<not> 0 < ni"
    with i(2) have neg: "ris_num_instances s < 0" by (simp add: i(3))
    from prepare_loop_neg [OF neg, of "ris_pids s" "[]" t] obtain t1
      where "prepare_loop s (ris_pids s) [] t = Inr ([], t1)" by blast
    with pass have "avai_loop fuel (bs div ni) ([], ris_pids s, []) t1 = Some (Inr (out, t'))"
      by (simp add: RandomIdentitySampler_iter_def i(4))
    with avai_loop_empty_dict [OF i(7)] show False by blast
  qed
  let ?g = "\<lambda>p. dict_get (ris_index_dic s) p"
  have keys: "distinct (ris_pids s)"
    using group_index_keys [of pid ds] by (simp add: i(6))
  have ne: "\<forall>p\<in>set (ris_pids s). ?g p \<noteq> []"
    using group_index_nonempty [of _ pid ds] by (simp add: i(5,6))
  have pos': "0 < ris_num_instances s" using pos by (simp add: i(3))
  from prepare_loop_props [OF pos' ne keys, of "[]" t] obtain d0 t1 where p:
    "prepare_loop s (ris_pids s) [] t = Inr (d0, t1)"
    "\<forall>p. p \<notin> set (ris_pids s) \<longrightarrow> dict_get d0 p = dict_get [] p"
    "\<forall>p\<in>set (ris_pids s). int (length (dict_get d0 p)) = max (int (length (?g p))) ni div ni"
    "\<forall>p. \<forall>c\<in>set (dict_get d0 p). int (length c) = ni \<and> set c \<subseteq> set (?g p)"
    by (auto simp add: i(3))
  have budget: "1 \<le> max (int (length (?g p))) ni div ni" for p
  proof -
    have "ni div ni \<le> max (int (length (?g p))) ni div ni"
      using pos by (intro zdiv_mono1) simp_all
    then show ?thesis using pos by simp
  qed
  have ne0: "\<forall>p\<in>set (ris_pids s). dict_get d0 p \<noteq> []"
  proof
    fix p assume "p \<in> set (ris_pids s)"
    with p(3) have "int (length (dict_get d0 p)) = max (int (length (?g p))) ni div ni" by blast
    with budget [of p] show "dict_get d0 p \<noteq> []" by auto
  qed
  from pass p(1)
  have run: "avai_loop fuel (bs div ni) (d0, ris_pids s, []) t1 = Some (Inr (out, t'))"
    by (simp add: RandomIdentitySampler_iter_def i(4))
  from avai_loop_Inr [OF run keys ne0] obtain blocks where bl:
    "out = [] @ concat (map snd blocks)"
    "\<forall>p. \<exists>rest. map snd (filter (\<lambda>x. fst x = p) blocks) @ rest = dict_get d0 p"
    by blast
  have mem: "snd x \<in> set (dict_get d0 (fst x))" if "x \<in> set blocks" for x
  proof -
    from bl(2) obtain rest
      where r: "map snd (filter (\<lambda>y. fst y = fst x) blocks) @ rest = dict_get d0 (fst x)"
      by blast
    have "snd x \<in> set (map snd (filter (\<lambda>y. fst y = fst x) blocks))" using that by auto
    then show ?thesis unfolding r [symmetric] by simp
  qed
  have a: "\<forall>x\<in>set blocks. fst x \<in> set (ris_pids s) \<and> int (length (snd x)) = ni
            \<and> set (snd x) \<subseteq> set (?g (fst x))"
  proof
    fix x assume x: "x \<in> set blocks"
    note m = mem [OF x]
    have "fst x \<in> set (ris_pids s)"
    proof (rule ccontr)
      assume "fst x \<notin> set (ris_pids s)"
      with p(2) have "dict_get d0 (fst x) = []" by simp
      with m show False by simp
    qed
    with p(4) m show "fst x \<in> set (ris_pids s) \<and> int (length (snd x)) = ni
            \<and> set (snd x) \<subseteq> set (?g (fst x))" by blast
  qed
  have b: "\<forall>p. int (length (filter (\<lambda>x. fst x = p) blocks))
            \<le> max (int (length (?g p))) ni div ni"
  proof
    fix p
    from bl(2) obtain rest
      where r: "map snd (filter (\<lambda>x. fst x = p) blocks) @ rest = dict_get d0 p" by blast
    then have "length (map snd (filter (\<lambda>x. fst x = p) blocks)) + length rest = length (dict_get d0 p)"
      by (metis length_append)
    then have le: "length (filter (\<lambda>x. fst x = p) blocks) \<le> length (dict_get d0 p)" by simp
    show "int (length (filter (\<lambda>x. fst x = p) blocks)) \<le> max (int (length (?g p))) ni div ni"
    proof (cases "p \<in> set (ris_pids s)")
      case True
      with p(3) le show ?thesis by (metis of_nat_le_iff)
    next
      case False
      with p(2) le have "length (filter (\<lambda>x. fst x = p) blocks) = 0" by simp
      with budget [of p] show ?thesis by linarith
    qed
  qed
  have o: "out = concat (map snd blocks)" using bl(1) by simp
  from o a b have "\<exists>blocks. out = concat (map snd blocks)
      \<and> (\<forall>x\<in>set blocks. fst x \<in> set (ris_pids s) \<and> int (length (snd x)) = ni
            \<and> set (snd x) \<subseteq> set (?g (fst x)))
      \<and> (\<forall>p. int (length (filter (\<lambda>x. fst x = p) blocks))
            \<le> max (int (length (?g p))) ni div ni)"
    by (intro exI [of _ blocks] conjI)
  with pos show ?thesis by (rule conjI)
qed

subsection \<open>The identity sampler returns\<close>

lemma total_dict_set:
  "dict_get d p = b # rest \<Longrightarrow>
   (\<Sum>x\<leftarrow>dict_set p rest d. length (snd x)) + 1 = (\<Sum>x\<leftarrow>d. length (snd x))"
proof (induction d)
  case Nil
  then show ?case by simp
next
  case (Cons x d)
  obtain k vs where x: "x = (k, vs)" by (cases x)
  show ?case
  proof (cases "k = p")
    case True
    with Cons.prems show ?thesis by (simp add: x dict_get_Cons)
  next
    case False
    with Cons.prems have "dict_get d p = b # rest" by (simp add: x dict_get_Cons)
    from Cons.IH [OF this] False show ?thesis by (simp add: x)
  qed
qed

lemma pop_loop_total:
  assumes "distinct sel" and "set sel \<subseteq> set avai"
    and "distinct avai" and "\<forall>p\<in>set avai. dict_get d p \<noteq> []"
  shows "\<exists>d' avai' final'. pop_loop sel (d, avai, final) = Inr (d', avai', final')
      \<and> (\<Sum>x\<leftarrow>d'. length (snd x)) + length sel = (\<Sum>x\<leftarrow>d. length (snd x))"
  using assms
proof (induction sel arbitrary: d avai final)
  case Nil
  then show ?case by simp
next
  case (Cons p sel)
  have pa: "p \<in> set avai" using Cons.prems(2) by simp
  with Cons.prems(4) obtain b rest where g: "dict_get d p = b # rest"
    by (cases "dict_get d p") auto
  define d1 where "d1 = dict_set p rest d"
  define avai1 where "avai1 = (if rest = [] then remove1 p avai else avai)"
  have run: "pop_loop (p # sel) (d, avai, final) = pop_loop sel (d1, avai1, final @ b)"
    using g pa by (simp add: Let_def d1_def avai1_def)
  have pn: "p \<notin> set sel" and ds: "distinct sel" using Cons.prems(1) by simp_all
  have s1: "set sel \<subseteq> set avai1"
    using Cons.prems(2,3) pn by (auto simp add: avai1_def)
  have i1: "distinct avai1" using Cons.prems(3) by (simp add: avai1_def)
  have i2: "\<forall>q\<in>set avai1. dict_get d1 q \<noteq> []"
  proof
    fix q assume q: "q \<in> set avai1"
    show "dict_get d1 q \<noteq> []"
    proof (cases "q = p")
      case True
      with q Cons.prems(3) have "rest \<noteq> []" by (auto simp add: avai1_def split: if_splits)
      with True show ?thesis by (simp add: d1_def dict_get_dict_set)
    next
      case False
      moreover from q have "q \<in> set avai"
        using set_remove1_subset [of p avai] by (auto simp add: avai1_def split: if_splits)
      ultimately show ?thesis using Cons.prems(4) by (simp add: d1_def dict_get_dict_set)
    qed
  qed
  from Cons.IH [OF ds s1 i1 i2, of "final @ b"] obtain d' avai' final'
    where ih: "pop_loop sel (d1, avai1, final @ b) = Inr (d', avai', final')"
      "(\<Sum>x\<leftarrow>d'. length (snd x)) + length sel = (\<Sum>x\<leftarrow>d1. length (snd x))"
    by blast
  from total_dict_set [OF g] have "(\<Sum>x\<leftarrow>d1. length (snd x)) + 1 = (\<Sum>x\<leftarrow>d. length (snd x))"
    by (simp add: d1_def)
  with ih(2) have "(\<Sum>x\<leftarrow>d'. length (snd x)) + length (p # sel) = (\<Sum>x\<leftarrow>d. length (snd x))"
    by simp
  with run ih(1) show ?case by simp
qed

lemma avai_loop_total:
  assumes "(\<Sum>x\<leftarrow>d. length (snd x)) < fuel" and "1 \<le> npb"
    and "distinct avai" and "\<forall>p\<in>set avai. dict_get d p \<noteq> []"
  shows "\<exists>out t'. avai_loop fuel npb (d, avai, final) t = Some (Inr (out, t'))"
  using assms(1,3,4)
proof (induction fuel arbitrary: d avai final t)
  case 0
  then show ?case by simp
next
  case (Suc fuel)
  show ?case
  proof (cases "npb \<le> int (length avai)")
    case False
    then show ?thesis by simp
  next
    case True
    with assms(2) have "0 \<le> npb" by simp
    from random_sample_total [OF this True, of t] obtain sel t1
      where rs: "random_sample avai npb t = Inr (sel, t1)" by blast
    note r = random_sample_Inr [OF rs]
    have ds: "distinct sel" using r(6) Suc.prems(2) by simp
    from pop_loop_total [OF ds r(5) Suc.prems(2,3), of final] obtain d' avai' final'
      where pl: "pop_loop sel (d, avai, final) = Inr (d', avai', final')"
        and tot: "(\<Sum>x\<leftarrow>d'. length (snd x)) + length sel = (\<Sum>x\<leftarrow>d. length (snd x))"
      by blast
    from pop_loop_Inr [OF pl Suc.prems(2,3)]
    have inv: "distinct avai'" "\<forall>p\<in>set avai'. dict_get d' p \<noteq> []" by blast+
    have "1 \<le> length sel" using r(3) assms(2) by linarith
    with tot Suc.prems(1) have "(\<Sum>x\<leftarrow>d'. length (snd x)) < fuel" by linarith
    from Suc.IH [OF this inv, of final' t1] True rs pl show ?thesis by simp
  qed
qed

lemma RandomIdentitySampler_iter_returns:
  assumes init: "RandomIdentitySampler_init ds bs ni = Inr s" and pos: "0 < ni"
  shows "\<exists>fuel out t'. RandomIdentitySampler_iter fuel s t = Some (Inr (out, t'))"
proof -
  note i = RandomIdentitySampler_init_Inr [OF init]
  have keys: "distinct (ris_pids s)"
    using group_index_keys [of pid ds] by (simp add: i(6))
  have ne: "\<forall>p\<in>set (ris_pids s). dict_get (ris_index_dic s) p \<noteq> []"
    using group_index_nonempty [of _ pid ds] by (simp add: i(5,6))
  have pos': "0 < ris_num_instances s" using pos by (simp add: i(3))
  from prepare_loop_props [OF pos' ne keys, of "[]" t] obtain d0 t1 where p:
    "prepare_loop s (ris_pids s) [] t = Inr (d0, t1)"
    "\<forall>p\<in>set (ris_pids s). int (length (dict_get d0 p))
        = max (int (length (dict_get (ris_index_dic s) p))) ni div ni"
    by (auto simp add: i(3))
  have ne0: "\<forall>p\<in>set (ris_pids s). dict_get d0 p \<noteq> []"
  proof
    fix p assume "p \<in> set (ris_pids s)"
    with p(2) have e: "int (length (dict_get d0 p))
        = max (int (length (dict_get (ris_index_dic s) p))) ni div ni" by blast
    have "ni div ni \<le> max (int (length (dict_get (ris_index_dic s) p))) ni div ni"
      using pos by (intro zdiv_mono1) simp_all
    with e pos show "dict_get d0 p \<noteq> []" by auto
  qed
  have "0 < bs div ni" using i(1) pos by (simp add: pos_imp_zdiv_pos_iff)
  then have npb: "1 \<le> bs div ni" by simp
  define fuel where "fuel = Suc (\<Sum>x\<leftarrow>d0. length (snd x))"
  have "(\<Sum>x\<leftarrow>d0. length (snd x)) < fuel" by (simp add: fuel_def)
  from avai_loop_total [OF this npb keys ne0, of "[]" t1] obtain out t'
    where "avai_loop fuel (bs div ni) (d0, ris_pids s, []) t1 = Some (Inr (out, t'))" by blast
  with p(1) have "RandomIdentitySampler_iter fuel s t = Some (Inr (out, t'))"
    by (simp add: RandomIdentitySampler_iter_def i(4))
  then show ?thesis by blast
qed

text \<open>
  Claim C1. Let \<open>__init__\<close> accept the configuration (so \<open>batch_size \<ge>
  num_instances\<close> and there are at least \<open>batch_size // num_instances\<close> distinct
  identities) and let a pass return, for any tape. Then \<open>num_instances\<close> is
  positive, and the pass is a concatenation of blocks, each tagged with an identity of
  the data source, each of exactly \<open>num_instances\<close> indices, all from the group of
  its identity; no identity has more blocks than
  \<open>max(count, num_instances) // num_instances\<close>. The groups partition the positions
  of the data source by identity, so every emitted index belongs to exactly one
  identity. With \<open>num_instances\<close> positive the loop ends on every tape, and without an
  error: some amount of fuel gives a pass.
\<close>

theorem RandomIdentitySampler_blocks:
  assumes init: "RandomIdentitySampler_init ds bs ni = Inr s"
    and pass: "RandomIdentitySampler_iter fuel s t = Some (Inr (out, t'))"
  shows "ni \<le> bs \<and> bs div ni \<le> int (card (pid ` set ds)) \<and> 0 < ni
    \<and> (\<exists>blocks. out = concat (map snd blocks)
          \<and> (\<forall>x\<in>set blocks. fst x \<in> pid ` set ds \<and> int (length (snd x)) = ni
                \<and> set (snd x) \<subseteq> set (dict_get (ris_index_dic s) (fst x)))
          \<and> (\<forall>p. int (length (filter (\<lambda>x. fst x = p) blocks))
                \<le> max (int (length (dict_get (ris_index_dic s) p))) ni div ni))
    \<and> (\<forall>p i. i \<in> set (dict_get (ris_index_dic s) p) \<longleftrightarrow> i < length ds \<and> pid (ds ! i) = p)
    \<and> (\<forall>i\<in>set out. i < length ds)
    \<and> (\<forall>t2. \<exists>fuel2 out2 t2'. RandomIdentitySampler_iter fuel2 s t2 = Some (Inr (out2, t2')))"
proof -
  note i = RandomIdentitySampler_init_Inr [OF init]
  have pids: "set (ris_pids s) = pid ` set ds"
    using group_index_keys [of pid ds] by (simp add: i(6))
  have card: "int (length (ris_pids s)) = int (card (pid ` set ds))"
    using length_group_index [of pid ds] by (simp add: i(6))
  from identity_blocks [OF init pass] obtain blocks where pos: "0 < ni"
    and bl: "out = concat (map snd blocks)"
      "\<forall>x\<in>set blocks. fst x \<in> set (ris_pids s) \<and> int (length (snd x)) = ni
            \<and> set (snd x) \<subseteq> set (dict_get (ris_index_dic s) (fst x))"
      "\<forall>p. int (length (filter (\<lambda>x. fst x = p) blocks))
            \<le> max (int (length (dict_get (ris_index_dic s) p))) ni div ni"
    by blast
  have grp: "\<forall>p i. i \<in> set (dict_get (ris_index_dic s) p) \<longleftrightarrow> i < length ds \<and> pid (ds ! i) = p"
    by (simp add: i(5) group_index_mem)
  have inb: "\<forall>i\<in>set out. i < length ds"
  proof
    fix j assume "j \<in> set out"
    then obtain x where x: "x \<in> set blocks" "j \<in> set (snd x)" by (auto simp add: bl(1))
    with bl(2) have "j \<in> set (dict_get (ris_index_dic s) (fst x))" by blast
    with grp show "j < length ds" by blast
  qed
  have bl2: "\<forall>x\<in>set blocks. fst x \<in> pid ` set ds \<and> int (length (snd x)) = ni
                \<and> set (snd x) \<subseteq> set (dict_get (ris_index_dic s) (fst x))"
    using bl(2) by (simp only: pids)
  from bl(1) bl2 bl(3) have ex: "\<exists>blocks. out = concat (map snd blocks)
          \<and> (\<forall>x\<in>set blocks. fst x \<in> pid ` set ds \<and> int (length (snd x)) = ni
                \<and> set (snd x) \<subseteq> set (dict_get (ris_index_dic s) (fst x)))
          \<and> (\<forall>p. int (length (filter (\<lambda>x. fst x = p) blocks))
                \<le> max (int (length (dict_get (ris_index_dic s) p))) ni div ni)"
    by (intro exI [of _ blocks] conjI)
  have v: "ni \<le> bs" "bs div ni \<le> int (card (pid ` set ds))"
    using i(1) i(7) card by simp_all
  have ret: "\<forall>t2. \<exists>fuel2 out2 t2'. RandomIdentitySampler_iter fuel2 s t2 = Some (Inr (out2, t2'))"
    using RandomIdentitySampler_iter_returns [OF init pos] by blast
  from v pos ex grp inb ret show ?thesis by (intro conjI)
qed

text \<open>
  The example of the specification: the groups \<open>[0, 1, 2]\<close>, \<open>[3]\<close> and
  \<open>[4, 5]\<close>, two instances, batch size four. On one tape the pass is \<open>1, 2\<close> of
  identity 0 then \<open>5, 4\<close> of identity 2; on another the single index of identity 1
  is doubled to \<open>3, 3\<close>.
\<close>

theorem RandomIdentitySampler_blocks_witness:
  "\<exists>s. RandomIdentitySampler_init six_items 4 2 = Inr s
     \<and> ris_index_dic s = [(0, [0, 1, 2]), (1, [3]), (2, [4, 5])]
     \<and> RandomIdentitySampler_iter 5 s [] = Some (Inr ([1, 2, 5, 4], []))
     \<and> RandomIdentitySampler_iter 5 s [1, 0, 3, 2, 1, 5, 4] = Some (Inr ([3, 3, 2, 0], []))
     \<and> (\<exists>blocks. [3, 3, 2, 0] = concat (map snd blocks)
          \<and> (\<forall>x\<in>set blocks. fst x \<in> pid ` set six_items \<and> int (length (snd x)) = 2
                \<and> set (snd x) \<subseteq> set (dict_get (ris_index_dic s) (fst x)))
          \<and> (\<forall>p. int (length (filter (\<lambda>x. fst x = p) blocks))
                \<le> max (int (length (dict_get (ris_index_dic s) p))) 2 div 2))"
proof -
  define s where "s = \<lparr> ris_data_source = six_items, ris_batch_size = 4, ris_num_instances = 2,
     ris_num_pids_per_batch = 2, ris_index_dic = [(0, [0, 1, 2]), (1, [3]), (2, [4, 5])],
     ris_pids = [0, 1, 2], ris_length = 6 \<rparr>"
  have i: "RandomIdentitySampler_init six_items 4 2 = Inr s"
    unfolding s_def by code_simp
  have p1: "RandomIdentitySampler_iter 5 s [] = Some (Inr ([1, 2, 5, 4], []))"
    unfolding s_def by code_simp
  have p2: "RandomIdentitySampler_iter 5 s [1, 0, 3, 2, 1, 5, 4] = Some (Inr ([3, 3, 2, 0], []))"
    unfolding s_def by code_simp
  have d: "ris_index_dic s = [(0, [0, 1, 2]), (1, [3]), (2, [4, 5])]" by (simp add: s_def)
  note T = RandomIdentitySampler_blocks [OF i p2]
  from T have b: "\<exists>blocks. [3, 3, 2, 0] = concat (map snd blocks)
          \<and> (\<forall>x\<in>set blocks. fst x \<in> pid ` set six_items \<and> int (length (snd x)) = 2
                \<and> set (snd x) \<subseteq> set (dict_get (ris_index_dic s) (fst x)))
          \<and> (\<forall>p. int (length (filter (\<lambda>x. fst x = p) blocks))
                \<le> max (int (length (dict_get (ris_index_dic s) p))) 2 div 2)"
    by (elim conjE)
  show ?thesis
    by (intro exI [of _ s] conjI; fact)
qed

subsection \<open>The reported lengths\<close>

lemma length_loop_sum:
  "length_loop ni dic ps acc
     = acc + (\<Sum>p\<leftarrow>ps. max (int (length (dict_get dic p))) ni
                        - max (int (length (dict_get dic p))) ni mod ni)"
  by (induction ps arbitrary: acc) (simp_all add: Let_def max_def)

lemma length_loop_mult:
  "length_loop ni dic ps 0 = ni * (\<Sum>p\<leftarrow>ps. max (int (length (dict_get dic p))) ni div ni)"
proof -
  have "(\<Sum>p\<leftarrow>ps. max (int (length (dict_get dic p))) ni
                        - max (int (length (dict_get dic p))) ni mod ni)
      = (\<Sum>p\<leftarrow>ps. ni * (max (int (length (dict_get dic p))) ni div ni))"
    by (simp add: minus_mod_eq_mult_div)
  also have "\<dots> = ni * (\<Sum>p\<leftarrow>ps. max (int (length (dict_get dic p))) ni div ni)"
    by (simp add: sum_list_const_mult)
  finally show ?thesis by (simp add: length_loop_sum)
qed

lemma length_concat_blocks:
  "\<forall>x\<in>set blocks. int (length (snd x)) = ni \<Longrightarrow>
   int (length (concat (map snd blocks))) = ni * int (length blocks)"
  by (induction blocks) (simp_all add: algebra_simps)

lemma count_zero_absent:
  "p \<notin> set ps \<Longrightarrow> (\<Sum>q\<leftarrow>ps. if p = q then 1 else 0) = (0::int)"
  by (induction ps) auto

lemma count_one_distinct:
  "distinct ps \<Longrightarrow> p \<in> set ps \<Longrightarrow> (\<Sum>q\<leftarrow>ps. if p = q then 1 else 0) = (1::int)"
  by (induction ps) (auto simp add: count_zero_absent)

lemma length_blocks_sum:
  assumes "distinct ps" and "\<forall>x\<in>set blocks. fst x \<in> set ps"
  shows "int (length blocks) = (\<Sum>p\<leftarrow>ps. int (length (filter (\<lambda>x. fst x = p) blocks)))"
  using assms(2)
proof (induction blocks)
  case Nil
  show ?case by simp
next
  case (Cons x blocks)
  have "(\<Sum>p\<leftarrow>ps. int (length (filter (\<lambda>y. fst y = p) (x # blocks))))
      = (\<Sum>p\<leftarrow>ps. (if fst x = p then 1 else 0) + int (length (filter (\<lambda>y. fst y = p) blocks)))"
    by (intro arg_cong [where f = sum_list] map_cong) simp_all
  also have "\<dots> = (\<Sum>p\<leftarrow>ps. if fst x = p then 1 else 0)
                 + (\<Sum>p\<leftarrow>ps. int (length (filter (\<lambda>y. fst y = p) blocks)))"
    by (simp add: sum_list_addf)
  also have "(\<Sum>p\<leftarrow>ps. if fst x = p then 1 else 0) = (1::int)"
    using assms(1) Cons.prems by (intro count_one_distinct) simp_all
  finally show ?case using Cons by simp
qed

lemma identity_length_bound:
  assumes init: "RandomIdentitySampler_init ds bs ni = Inr s"
  shows "ni dvd RandomIdentitySampler_len s"
    and "RandomIdentitySampler_len s
           = (\<Sum>p\<leftarrow>ris_pids s. max (int (length (dict_get (ris_index_dic s) p))) ni
                                 - max (int (length (dict_get (ris_index_dic s) p))) ni mod ni)"
    and "RandomIdentitySampler_iter fuel s t = Some (Inr (out, t')) \<Longrightarrow>
           int (length out) \<le> RandomIdentitySampler_len s \<and> ni dvd int (length out)"
proof -
  note i = RandomIdentitySampler_init_Inr [OF init]
  let ?c = "\<lambda>p. max (int (length (dict_get (ris_index_dic s) p))) ni div ni"
  have len: "RandomIdentitySampler_len s = ni * (\<Sum>p\<leftarrow>ris_pids s. ?c p)"
    by (simp add: RandomIdentitySampler_len_def i(8) length_loop_mult)
  then show "ni dvd RandomIdentitySampler_len s" by simp
  show "RandomIdentitySampler_len s
           = (\<Sum>p\<leftarrow>ris_pids s. max (int (length (dict_get (ris_index_dic s) p))) ni
                                 - max (int (length (dict_get (ris_index_dic s) p))) ni mod ni)"
    by (simp add: RandomIdentitySampler_len_def i(8) length_loop_sum)
  show "int (length out) \<le> RandomIdentitySampler_len s \<and> ni dvd int (length out)"
    if pass: "RandomIdentitySampler_iter fuel s t = Some (Inr (out, t'))"
  proof -
    from identity_blocks [OF init pass] obtain blocks where pos: "0 < ni"
      and bl: "out = concat (map snd blocks)"
        "\<forall>x\<in>set blocks. fst x \<in> set (ris_pids s) \<and> int (length (snd x)) = ni
              \<and> set (snd x) \<subseteq> set (dict_get (ris_index_dic s) (fst x))"
        "\<forall>p. int (length (filter (\<lambda>x. fst x = p) blocks)) \<le> ?c p"
      by blast
    have keys: "distinct (ris_pids s)"
      using group_index_keys [of pid ds] by (simp add: i(6))
    have "\<forall>x\<in>set blocks. int (length (snd x)) = ni" using bl(2) by blast
    then have lo: "int (length out) = ni * int (length blocks)"
      unfolding bl(1) by (rule length_concat_blocks)
    have "\<forall>x\<in>set blocks. fst x \<in> set (ris_pids s)" using bl(2) by blast
    with keys have "int (length blocks)
        = (\<Sum>p\<leftarrow>ris_pids s. int (length (filter (\<lambda>x. fst x = p) blocks)))"
      by (rule length_blocks_sum)
    also have "\<dots> \<le> (\<Sum>p\<leftarrow>ris_pids s. ?c p)"
      using bl(3) by (intro sum_list_mono) simp
    finally have "ni * int (length blocks) \<le> ni * (\<Sum>p\<leftarrow>ris_pids s. ?c p)"
      using pos by (simp add: mult_left_mono)
    with lo len show ?thesis by simp
  qed
qed

subsection \<open>Rounds that draw from every label\<close>

lemma domain_loop_profile:
  assumes "domain_loop k sel (dd, final, stop, draws) t = Inr ((dd', final', stop', draws'), t')"
    and "\<forall>l. distinct (dict_get dd l)"
    and "distinct sel"
  shows "(\<forall>l\<in>set sel. int (length (dict_get dd' l)) = int (length (dict_get dd l)) - k)
     \<and> (\<forall>l. l \<notin> set sel \<longrightarrow> dict_get dd' l = dict_get dd l)
     \<and> (stop' \<longleftrightarrow> stop \<or> (\<exists>l\<in>set sel. int (length (dict_get dd l)) - k < k))
     \<and> int (length final') = int (length final) + int (length sel) * k
     \<and> (\<forall>l. distinct (dict_get dd' l))"
  using assms
proof (induction sel arbitrary: dd final stop draws t)
  case Nil
  then show ?case by simp
next
  case (Cons d sel)
  let ?pool = "dict_get dd d"
  from Cons.prems(1) obtain s1 t1 where rs: "random_sample ?pool k t = Inr (s1, t1)"
    by (auto simp add: Let_def split: sum.splits)
  from Cons.prems(1) rs obtain rest where rm: "remove_loop s1 ?pool = Inr rest"
    by (auto simp add: Let_def split: sum.splits)
  define dd1 where "dd1 = dict_set d rest dd"
  define stop1 where "stop1 = (if int (length rest) < k then True else stop)"
  let ?e = "\<lparr> dr_label = d, dr_pool = ?pool, dr_selected = s1, dr_rest = rest \<rparr>"
  have run: "domain_loop k sel (dd1, final @ s1, stop1, draws @ [?e]) t1
      = Inr ((dd', final', stop', draws'), t')"
    using Cons.prems(1) rs rm by (simp add: Let_def dd1_def stop1_def)
  from remove_loop_props [OF random_sample_Inr(4) [OF rs]] rm
  have "mset rest = mset ?pool - mset s1" by auto
  then have mr: "mset rest + mset s1 = mset ?pool"
    using random_sample_Inr(4) [OF rs] by (simp add: subset_mset.diff_add)
  have dp: "distinct ?pool" using Cons.prems(2) by simp
  note sp = mset_split_distinct [OF mr dp]
  from mr have "length rest + length s1 = length ?pool"
    by (metis length_append mset_append mset_eq_length)
  then have lr: "int (length rest) = int (length ?pool) - k"
    using random_sample_Inr(3) [OF rs] by linarith
  have inv1: "\<forall>l. distinct (dict_get dd1 l)"
    using Cons.prems(2) sp(1) by (simp add: dd1_def dict_get_dict_set)
  have dn: "d \<notin> set sel" and ds: "distinct sel" using Cons.prems(3) by simp_all
  from Cons.IH [OF run inv1 ds] have ih:
    "\<forall>l\<in>set sel. int (length (dict_get dd' l)) = int (length (dict_get dd1 l)) - k"
    "\<forall>l. l \<notin> set sel \<longrightarrow> dict_get dd' l = dict_get dd1 l"
    "stop' \<longleftrightarrow> stop1 \<or> (\<exists>l\<in>set sel. int (length (dict_get dd1 l)) - k < k)"
    "int (length final') = int (length (final @ s1)) + int (length sel) * k"
    "\<forall>l. distinct (dict_get dd' l)"
    by blast+
  have o: "l \<noteq> d \<Longrightarrow> dict_get dd1 l = dict_get dd l" for l
    by (simp add: dd1_def dict_get_dict_set)
  have dd1d: "dict_get dd1 d = rest" by (simp add: dd1_def dict_get_dict_set)
  have seld: "l \<in> set sel \<Longrightarrow> l \<noteq> d" for l using dn by auto
  have a: "\<forall>l\<in>set (d # sel). int (length (dict_get dd' l)) = int (length (dict_get dd l)) - k"
  proof
    fix l assume "l \<in> set (d # sel)"
    then consider "l = d" | "l \<in> set sel" by auto
    then show "int (length (dict_get dd' l)) = int (length (dict_get dd l)) - k"
    proof cases
      case 1
      with ih(2) dn dd1d lr show ?thesis by simp
    next
      case 2
      with ih(1) o [OF seld [OF 2]] show ?thesis by simp
    qed
  qed
  have b: "\<forall>l. l \<notin> set (d # sel) \<longrightarrow> dict_get dd' l = dict_get dd l"
    using ih(2) o by simp
  have "(\<exists>l\<in>set sel. int (length (dict_get dd1 l)) - k < k)
      \<longleftrightarrow> (\<exists>l\<in>set sel. int (length (dict_get dd l)) - k < k)"
    using o seld by (metis (no_types, lifting))
  then have c: "stop' \<longleftrightarrow> stop \<or> (\<exists>l\<in>set (d # sel). int (length (dict_get dd l)) - k < k)"
    using ih(3) lr by (auto simp add: stop1_def)
  have d: "int (length final') = int (length final) + int (length (d # sel)) * k"
    using ih(4) random_sample_Inr(3) [OF rs] by (simp add: algebra_simps)
  from a b c d ih(5) show ?case by (intro conjI)
qed

lemma sample_all_labels:
  assumes "random_sample doms n t = Inr (sel, t')" and "distinct doms" and "n = int (length doms)"
  shows "set sel = set doms" "distinct sel" "length sel = length doms"
proof -
  show d: "distinct sel" using random_sample_Inr(6) [OF assms(1,2)] .
  show l: "length sel = length doms" using random_sample_Inr(3) [OF assms(1)] assms(3) by simp
  have "set sel \<subseteq> set doms" using random_sample_Inr(5) [OF assms(1)] .
  moreover have "card (set sel) = card (set doms)"
    using d assms(2) l by (simp add: distinct_card)
  ultimately show "set sel = set doms" by (simp add: card_subset_eq)
qed

lemma sampling_loop_same_length:
  assumes "sampling_loop f1 s (dd1, fin1, rs1) t1 = Some (Inr ((out1, rs1'), t1'))"
    and "sampling_loop f2 s (dd2, fin2, rs2) t2 = Some (Inr ((out2, rs2'), t2'))"
    and "\<forall>l. distinct (dict_get dd1 l)" and "\<forall>l. distinct (dict_get dd2 l)"
    and dom: "distinct (rds_domains s)"
    and all: "rds_n_domain s = int (length (rds_domains s))"
    and "\<forall>l\<in>set (rds_domains s). length (dict_get dd1 l) = length (dict_get dd2 l)"
  shows "int (length out1) - int (length fin1) = int (length out2) - int (length fin2)"
  using assms(1-4,7)
proof (induction f1 arbitrary: dd1 fin1 rs1 t1 f2 dd2 fin2 rs2 t2)
  case 0
  then show ?case by simp
next
  case (Suc f1)
  let ?k = "rds_n_img_per_domain s"
  from Suc.prems(2) obtain g2 where f2: "f2 = Suc g2" by (cases f2) simp_all
  from Suc.prems(1) obtain sel1 u1
    where s1: "random_sample (rds_domains s) (rds_n_domain s) t1 = Inr (sel1, u1)"
    by (auto split: sum.splits)
  from Suc.prems(1) s1 obtain e1 g1 st1 ev1 v1
    where l1: "domain_loop ?k sel1 (dd1, fin1, False, []) u1 = Inr ((e1, g1, st1, ev1), v1)"
    by (auto split: sum.splits)
  from Suc.prems(2) obtain sel2 u2
    where s2: "random_sample (rds_domains s) (rds_n_domain s) t2 = Inr (sel2, u2)"
    unfolding f2 by (auto split: sum.splits)
  from Suc.prems(2) s2 obtain e2 g2' st2 ev2 v2
    where l2: "domain_loop ?k sel2 (dd2, fin2, False, []) u2 = Inr ((e2, g2', st2, ev2), v2)"
    unfolding f2 by (auto split: sum.splits)
  note a1 = sample_all_labels [OF s1 dom all]
  note a2 = sample_all_labels [OF s2 dom all]
  from domain_loop_profile [OF l1 Suc.prems(3) a1(2)] have p1:
    "\<forall>l\<in>set (rds_domains s). int (length (dict_get e1 l)) = int (length (dict_get dd1 l)) - ?k"
    "st1 \<longleftrightarrow> (\<exists>l\<in>set (rds_domains s). int (length (dict_get dd1 l)) - ?k < ?k)"
    "int (length g1) = int (length fin1) + int (length (rds_domains s)) * ?k"
    "\<forall>l. distinct (dict_get e1 l)"
    by (simp_all add: a1)
  from domain_loop_profile [OF l2 Suc.prems(4) a2(2)] have p2:
    "\<forall>l\<in>set (rds_domains s). int (length (dict_get e2 l)) = int (length (dict_get dd2 l)) - ?k"
    "st2 \<longleftrightarrow> (\<exists>l\<in>set (rds_domains s). int (length (dict_get dd2 l)) - ?k < ?k)"
    "int (length g2') = int (length fin2) + int (length (rds_domains s)) * ?k"
    "\<forall>l. distinct (dict_get e2 l)"
    by (simp_all add: a2)
  have st: "st1 = st2" using p1(2) p2(2) Suc.prems(5) by simp
  have prof: "\<forall>l\<in>set (rds_domains s). length (dict_get e1 l) = length (dict_get e2 l)"
  proof
    fix l assume l: "l \<in> set (rds_domains s)"
    with p1(1) p2(1) Suc.prems(5)
    have "int (length (dict_get e1 l)) = int (length (dict_get e2 l))" by simp
    then show "length (dict_get e1 l) = length (dict_get e2 l)" by simp
  qed
  show ?case
  proof (cases st1)
    case True
    with Suc.prems(1) s1 l1 have "out1 = g1" by simp
    moreover from True st Suc.prems(2) s2 l2 have "out2 = g2'" unfolding f2 by simp
    ultimately show ?thesis using p1(3) p2(3) by simp
  next
    case False
    with Suc.prems(1) s1 l1
    have r1: "sampling_loop f1 s (e1, g1, rs1 @ [ev1]) v1 = Some (Inr ((out1, rs1'), t1'))"
      by simp
    from False st Suc.prems(2) s2 l2
    have r2: "sampling_loop g2 s (e2, g2', rs2 @ [ev2]) v2 = Some (Inr ((out2, rs2'), t2'))"
      unfolding f2 by simp
    from Suc.IH [OF r1 r2 p1(4) p2(4) prof]
    have "int (length out1) - int (length g1) = int (length out2) - int (length g2')" .
    with p1(3) p2(3) show ?thesis by simp
  qed
qed

lemma balanced_iter_rounds:
  "balanced_iter fuel s t = Some (Inr (out, t'))
     \<longleftrightarrow> (\<exists>rounds. balanced_rounds fuel s t = Some (Inr ((out, rounds), t')))"
proof (cases "balanced_rounds fuel s t")
  case None
  then show ?thesis by (simp add: balanced_iter_def)
next
  case (Some z)
  show ?thesis
  proof (cases z)
    case (Inl e)
    with Some show ?thesis by (simp add: balanced_iter_def)
  next
    case (Inr x)
    obtain o1 r1 u1 where "x = ((o1, r1), u1)" by (metis surj_pair)
    with Some Inr show ?thesis by (auto simp add: balanced_iter_def)
  qed
qed

lemma balanced_all_labels_length:
  assumes init: "balanced_init label fuel0 ds bs nd t0 = Some (Inr (s, t0'))"
    and all: "rds_n_domain s = int (length (rds_domains s))"
    and pass: "balanced_iter fuel s t = Some (Inr (out, t'))"
  shows "int (length out) = balanced_len s"
proof -
  note i = balanced_init_Inr [OF init]
  from i(7) obtain out0 where o: "balanced_iter fuel0 s t0 = Some (Inr (out0, t0'))"
    and l: "rds_length s = int (length out0)" by blast
  from o obtain r0 where r0: "sampling_loop fuel0 s (rds_domain_dict s, [], []) t0
      = Some (Inr ((out0, r0), t0'))"
    unfolding balanced_iter_rounds balanced_rounds_def by blast
  from pass obtain r where r: "sampling_loop fuel s (rds_domain_dict s, [], []) t
      = Some (Inr ((out, r), t'))"
    unfolding balanced_iter_rounds balanced_rounds_def by blast
  have inv: "\<forall>l. distinct (dict_get (rds_domain_dict s) l)"
    by (simp add: i(1) group_index_distinct)
  have dom: "distinct (rds_domains s)"
    using group_index_keys [of label ds] by (simp add: i(2))
  from sampling_loop_same_length [OF r r0 inv inv dom all]
  have "int (length out) = int (length out0)" by simp
  with l show ?thesis by (simp add: balanced_len_def)
qed

text \<open>
  Claim C4, amended. For RandomDomainSampler and RandomDatasetSampler the reported
  length is the length of the pass that \<open>__init__\<close> runs, that is of a pass over the
  same tape; when every round draws from all labels (\<open>n_domain\<close> is the number of
  labels, as it is by default), every pass that returns has that length. For
  IterDistributedSampler and InferenceSampler the reported length is the number of
  emitted indices. For RandomIdentitySampler the reported length is the sum over the
  identities of \<open>max(count, num_instances) - max(count, num_instances) % num_instances\<close>,
  a multiple of \<open>num_instances\<close>, and every pass that returns emits a multiple of
  \<open>num_instances\<close> that is at most the reported length.
\<close>

theorem reported_length:
  "(balanced_init label fuel0 ds bs nd t0 = Some (Inr (bsamp, t0')) \<longrightarrow>
      (\<exists>out. balanced_iter fuel0 bsamp t0 = Some (Inr (out, t0'))
             \<and> balanced_len bsamp = int (length out))
    \<and> (rds_n_domain bsamp = int (length (rds_domains bsamp)) \<longrightarrow>
         (\<forall>fuel t out t'. balanced_iter fuel bsamp t = Some (Inr (out, t')) \<longrightarrow>
            int (length out) = balanced_len bsamp)))
   \<and> (IterDistributedSampler_init ns dataset te bs2 nro rko sh = Inr dsamp \<longrightarrow>
        int (length (IterDistributedSampler_iter dsamp)) = IterDistributedSampler_len dsamp)
   \<and> (InferenceSampler_init ns2 dn nro2 rko2 = Inr isamp \<longrightarrow>
        int (length (InferenceSampler_iter isamp)) = InferenceSampler_len isamp)
   \<and> (RandomIdentitySampler_init ds2 bs3 ni = Inr rsamp \<longrightarrow>
        ni dvd RandomIdentitySampler_len rsamp
      \<and> RandomIdentitySampler_len rsamp
           = (\<Sum>p\<leftarrow>ris_pids rsamp. max (int (length (dict_get (ris_index_dic rsamp) p))) ni
                  - max (int (length (dict_get (ris_index_dic rsamp) p))) ni mod ni)
      \<and> (\<forall>fuel t out t'. RandomIdentitySampler_iter fuel rsamp t = Some (Inr (out, t')) \<longrightarrow>
            int (length out) \<le> RandomIdentitySampler_len rsamp \<and> ni dvd int (length out)))"
proof -
  have A: "(\<exists>out. balanced_iter fuel0 bsamp t0 = Some (Inr (out, t0'))
             \<and> balanced_len bsamp = int (length out))
    \<and> (rds_n_domain bsamp = int (length (rds_domains bsamp)) \<longrightarrow>
         (\<forall>fuel t out t'. balanced_iter fuel bsamp t = Some (Inr (out, t')) \<longrightarrow>
            int (length out) = balanced_len bsamp))"
    if init: "balanced_init label fuel0 ds bs nd t0 = Some (Inr (bsamp, t0'))"
  proof (intro conjI impI allI)
    show "\<exists>out. balanced_iter fuel0 bsamp t0 = Some (Inr (out, t0'))
             \<and> balanced_len bsamp = int (length out)"
      using balanced_init_Inr(7) [OF init] by (simp add: balanced_len_def)
  next
    fix fuel t out t'
    assume "rds_n_domain bsamp = int (length (rds_domains bsamp))"
      and "balanced_iter fuel bsamp t = Some (Inr (out, t'))"
    with init show "int (length out) = balanced_len bsamp"
      by (rule balanced_all_labels_length)
  qed
  have B: "int (length (IterDistributedSampler_iter dsamp)) = IterDistributedSampler_len dsamp"
    if "IterDistributedSampler_init ns dataset te bs2 nro rko sh = Inr dsamp"
    using IterDistributedSampler_init_length [OF that] by simp
  have C: "int (length (InferenceSampler_iter isamp)) = InferenceSampler_len isamp"
    for isamp
    by (simp add: InferenceSampler_iter_def InferenceSampler_len_def)
  have D: "ni dvd RandomIdentitySampler_len rsamp
      \<and> RandomIdentitySampler_len rsamp
           = (\<Sum>p\<leftarrow>ris_pids rsamp. max (int (length (dict_get (ris_index_dic rsamp) p))) ni
                  - max (int (length (dict_get (ris_index_dic rsamp) p))) ni mod ni)
      \<and> (\<forall>fuel t out t'. RandomIdentitySampler_iter fuel rsamp t = Some (Inr (out, t')) \<longrightarrow>
            int (length out) \<le> RandomIdentitySampler_len rsamp \<and> ni dvd int (length out))"
    if init: "RandomIdentitySampler_init ds2 bs3 ni = Inr rsamp"
    using identity_length_bound [OF init] by blast
  show ?thesis
    by (intro conjI; (rule impI)?; (erule A | erule B | rule C | erule D))
qed

text \<open>
  One sampler of each kind, with its reported length and a pass: two cameras in each
  round over the six items, the distributed sampler over nine items, rank 2 of three
  over ten items, and the identity sampler whose pass of four indices stays below the
  reported six.
\<close>

theorem reported_length_witness:
  "\<exists>bsamp isamp rsamp dsamp.
       balanced_init camid 5 six_items 4 None [] = Some (Inr (bsamp, []))
     \<and> rds_n_domain bsamp = int (length (rds_domains bsamp))
     \<and> balanced_len bsamp = 4
     \<and> balanced_iter 5 bsamp [1] = Some (Inr ([2, 5, 0, 1], []))
     \<and> int (length [2, 5, 0, 1 :: nat]) = balanced_len bsamp
     \<and> IterDistributedSampler_init
          (\<lambda>name. if name = ''torch'' then Some (Torch (\<lambda>e n. rotate e [0 ..< n])) else None)
          [0, 1, 2, 3, 4, 5, 6, 7, 8 :: nat] 2 2 (Some 2) (Some 0) True = Inr dsamp
     \<and> int (length (IterDistributedSampler_iter dsamp)) = IterDistributedSampler_len dsamp
     \<and> IterDistributedSampler_len dsamp = 8
     \<and> InferenceSampler_init module_globals 10 (Some 3) (Some 2) = Inr isamp
     \<and> int (length (InferenceSampler_iter isamp)) = InferenceSampler_len isamp
     \<and> InferenceSampler_len isamp = 2
     \<and> RandomIdentitySampler_init six_items 4 2 = Inr rsamp
     \<and> RandomIdentitySampler_len rsamp = 6
     \<and> RandomIdentitySampler_iter 5 rsamp [] = Some (Inr ([1, 2, 5, 4], []))
     \<and> int (length [1, 2, 5, 4 :: nat]) \<le> RandomIdentitySampler_len rsamp
     \<and> (2 :: int) dvd int (length [1, 2, 5, 4 :: nat])
     \<and> (2 :: int) dvd RandomIdentitySampler_len rsamp"
proof -
  define bsamp where "bsamp = \<lparr> rds_data_source = six_items,
     rds_domain_dict = [(0, [0, 1]), (1, [2, 3, 4, 5])], rds_domains = [0, 1],
     rds_n_img_per_domain = 2, rds_batch_size = 4, rds_n_domain = 2, rds_length = 4 \<rparr>"
  define rsamp where "rsamp = \<lparr> ris_data_source = six_items, ris_batch_size = 4,
     ris_num_instances = 2, ris_num_pids_per_batch = 2,
     ris_index_dic = [(0, [0, 1, 2]), (1, [3]), (2, [4, 5])],
     ris_pids = [0, 1, 2], ris_length = 6 \<rparr>"
  define isamp where "isamp = \<lparr> inf_data_num = 10, inf_common_size = 4, inf_begin = 8,
     inf_end = 10, inf_indices = [8, 9] \<rparr>"
  let ?ns = "\<lambda>name. if name = ''torch'' then Some (Torch (\<lambda>e n. rotate e [0 ..< n])) else None"
  let ?ds = "[0, 1, 2, 3, 4, 5, 6, 7, 8 :: nat]"
  define dsamp where "dsamp = \<lparr> ids_dataset = ?ds, ids_batch_size = 2, ids_num_replicas = 2,
     ids_rank = 0, ids_epoch = 0, ids_shuffle = True, ids_effect_bs = 4, ids_total_size = 8,
     ids_num_samples = 8, ids_indices = [0, 2, 4, 6, 1, 3, 5, 7] \<rparr>"
  have b1: "balanced_init camid 5 six_items 4 None [] = Some (Inr (bsamp, []))"
    unfolding bsamp_def by code_simp
  have b2: "rds_n_domain bsamp = int (length (rds_domains bsamp))" by (simp add: bsamp_def)
  have b3: "balanced_iter 5 bsamp [1] = Some (Inr ([2, 5, 0, 1], []))"
    unfolding bsamp_def by code_simp
  have b4: "balanced_len bsamp = 4" by (simp add: balanced_len_def bsamp_def)
  have d1: "IterDistributedSampler_init ?ns ?ds 2 2 (Some 2) (Some 0) True = Inr dsamp"
    unfolding dsamp_def by code_simp
  have d3: "IterDistributedSampler_len dsamp = 8"
    by (simp add: IterDistributedSampler_len_def dsamp_def)
  have i1: "InferenceSampler_init module_globals 10 (Some 3) (Some 2) = Inr isamp"
    unfolding isamp_def by code_simp
  have i3: "InferenceSampler_len isamp = 2" by (simp add: InferenceSampler_len_def isamp_def)
  have r1: "RandomIdentitySampler_init six_items 4 2 = Inr rsamp"
    unfolding rsamp_def by code_simp
  have r2: "RandomIdentitySampler_len rsamp = 6"
    by (simp add: RandomIdentitySampler_len_def rsamp_def)
  have r3: "RandomIdentitySampler_iter 5 rsamp [] = Some (Inr ([1, 2, 5, 4], []))"
    unfolding rsamp_def by code_simp
  note T = reported_length [where label = camid and ?fuel0.0 = 5 and ds = six_items and bs = 4
      and nd = None and ?t0.0 = "[]" and bsamp = bsamp and ?t0' = "[]"
      and ns = ?ns and dataset = ?ds and te = 2 and ?bs2.0 = 2 and nro = "Some 2"
      and rko = "Some 0" and sh = True and dsamp = dsamp
      and ?ns2.0 = module_globals and dn = 10 and ?nro2.0 = "Some 3" and ?rko2.0 = "Some 2" and isamp = isamp
      and ?ds2.0 = six_items and ?bs3.0 = 4 and ni = 2 and rsamp = rsamp]
  from T b1 b2 b3 have b5: "int (length [2, 5, 0, 1 :: nat]) = balanced_len bsamp" by blast
  from T d1 have d2: "int (length (IterDistributedSampler_iter dsamp)) = IterDistributedSampler_len dsamp"
    by blast
  from T i1 have i2: "int (length (InferenceSampler_iter isamp)) = InferenceSampler_len isamp"
    by blast
  from T r1 r3 have r4: "int (length [1, 2, 5, 4 :: nat]) \<le> RandomIdentitySampler_len rsamp"
    "(2 :: int) dvd int (length [1, 2, 5, 4 :: nat])" "(2 :: int) dvd RandomIdentitySampler_len rsamp"
    by blast+
  show ?thesis
    by (intro exI [of _ bsamp] exI [of _ isamp] exI [of _ rsamp] exI [of _ dsamp] conjI; fact)
qed

text \<open>
  Claim C4 as stated fails for RandomDomainSampler with one camera in each round: the
  pass of the construction draws camera 0 and ends after two indices, so the reported
  length is 2, and a later pass that draws camera 1 twice emits four.
\<close>

theorem reported_length_domain_counterexample:
  "RandomDomainSampler_init 5 six_items 2 (Some 1) [0]
     = Some (Inr (\<lparr> rds_data_source = six_items,
                    rds_domain_dict = [(0, [0, 1]), (1, [2, 3, 4, 5])], rds_domains = [0, 1],
                    rds_n_img_per_domain = 2, rds_batch_size = 2, rds_n_domain = 1,
                    rds_length = 2 \<rparr>, []))
   \<and> balanced_len \<lparr> rds_data_source = six_items,
                    rds_domain_dict = [(0, [0, 1]), (1, [2, 3, 4, 5])], rds_domains = [0, 1],
                    rds_n_img_per_domain = 2, rds_batch_size = 2, rds_n_domain = 1,
                    rds_length = 2 \<rparr> = 2
   \<and> balanced_iter 5 \<lparr> rds_data_source = six_items,
                    rds_domain_dict = [(0, [0, 1]), (1, [2, 3, 4, 5])], rds_domains = [0, 1],
                    rds_n_img_per_domain = 2, rds_batch_size = 2, rds_n_domain = 1,
                    rds_length = 2 \<rparr> [1, 0, 0, 1, 3]
       = Some (Inr ([2, 5, 4, 3], []))
   \<and> int (length [2, 5, 4, 3 :: nat]) \<noteq> 2"
proof -
  have "RandomDomainSampler_init 5 six_items 2 (Some 1) [0]
     = Some (Inr (\<lparr> rds_data_source = six_items,
                    rds_domain_dict = [(0, [0, 1]), (1, [2, 3, 4, 5])], rds_domains = [0, 1],
                    rds_n_img_per_domain = 2, rds_batch_size = 2, rds_n_domain = 1,
                    rds_length = 2 \<rparr>, []))"
    by code_simp
  moreover have "balanced_iter 5 \<lparr> rds_data_source = six_items,
                    rds_domain_dict = [(0, [0, 1]), (1, [2, 3, 4, 5])], rds_domains = [0, 1],
                    rds_n_img_per_domain = 2, rds_batch_size = 2, rds_n_domain = 1,
                    rds_length = 2 \<rparr> [1, 0, 0, 1, 3]
       = Some (Inr ([2, 5, 4, 3], []))"
    by code_simp
  ultimately show ?thesis by (simp add: balanced_len_def)
qed

subsection \<open>Configurations refused at construction\<close>

lemma balanced_init_refused:
  fixes nd :: "int option"
  defines "gc \<equiv> (\<lambda>label ds. case nd of None \<Rightarrow> int (card (label ` set ds))
                       | Some n \<Rightarrow> if n \<le> 0 then int (card (label ` set ds)) else n)"
  shows "gc label ds = 0 \<Longrightarrow> balanced_init label fuel ds bs nd t = Some (Inl ZeroDivisionError)"
    and "gc label ds \<noteq> 0 \<Longrightarrow> bs mod gc label ds \<noteq> 0 \<Longrightarrow>
           balanced_init label fuel ds bs nd t = Some (Inl AssertionError)"
proof -
  have l: "int (length (map fst (group_index label ds))) = int (card (label ` set ds))"
    using length_group_index [of label ds] by simp
  have g: "gc label ds = (case nd of None \<Rightarrow> int (length (map fst (group_index label ds)))
      | Some n \<Rightarrow> if n \<le> 0 then int (length (map fst (group_index label ds))) else n)"
    unfolding gc_def l ..
  show "gc label ds = 0 \<Longrightarrow> balanced_init label fuel ds bs nd t = Some (Inl ZeroDivisionError)"
    unfolding g by (simp add: balanced_init_def Let_def)
  show "gc label ds \<noteq> 0 \<Longrightarrow> bs mod gc label ds \<noteq> 0 \<Longrightarrow>
           balanced_init label fuel ds bs nd t = Some (Inl AssertionError)"
    unfolding g by (simp add: balanced_init_def Let_def)
qed

lemma balanced_init_empty:
  "\<exists>e. balanced_init label (Suc fuel) [] bs nd t = Some (Inl e)"
proof -
  have r: "0 < n \<Longrightarrow> random_sample ([]::int list) n t = Inl ValueError" for n
    by (simp add: random_sample_def)
  show ?thesis
  proof (cases nd)
    case None
    then show ?thesis by (simp add: balanced_init_def)
  next
    case (Some n)
    show ?thesis
    proof (cases "n \<le> 0")
      case True
      with Some show ?thesis by (simp add: balanced_init_def)
    next
      case False
      then have "0 < n" by simp
      from r [OF this] Some False show ?thesis
        by (simp add: balanced_init_def Let_def balanced_iter_def balanced_rounds_def)
    qed
  qed
qed

lemma RandomIdentitySampler_init_refused:
  "bs < ni \<Longrightarrow> RandomIdentitySampler_init ds bs ni = Inl ValueError"
  "ni \<le> bs \<Longrightarrow> int (card (pid ` set ds)) < bs div ni \<Longrightarrow>
     RandomIdentitySampler_init ds bs ni = Inl AssertionError"
proof -
  show "bs < ni \<Longrightarrow> RandomIdentitySampler_init ds bs ni = Inl ValueError"
    by (simp add: RandomIdentitySampler_init_def)
  assume a: "ni \<le> bs" "int (card (pid ` set ds)) < bs div ni"
  then have "ni \<noteq> 0" by auto
  moreover have "int (length (map fst (group_index pid ds))) = int (card (pid ` set ds))"
    using length_group_index [of pid ds] by simp
  ultimately show "RandomIdentitySampler_init ds bs ni = Inl AssertionError"
    using a by (simp add: RandomIdentitySampler_init_def Let_def)
qed

lemma RandomIdentitySampler_init_empty:
  "(\<exists>e. RandomIdentitySampler_init [] bs ni = Inl e) \<longleftrightarrow> \<not> (ni < 0 \<and> ni < bs)"
proof -
  have pos: "0 < bs div ni" if "0 < ni" "ni \<le> bs"
    using that by (simp add: pos_imp_zdiv_pos_iff)
  have neg: "bs div ni \<le> 0 \<longleftrightarrow> ni < bs" if "ni < 0" "ni \<le> bs"
  proof
    assume "bs div ni \<le> 0"
    show "ni < bs"
    proof (rule ccontr)
      assume "\<not> ni < bs"
      with that have "bs = ni" by simp
      with that \<open>bs div ni \<le> 0\<close> show False by simp
    qed
  next
    assume "ni < bs"
    show "bs div ni \<le> 0"
    proof (cases "0 \<le> bs")
      case True
      then show ?thesis using that by (simp add: div_nonneg_neg_le0)
    next
      case False
      then have "bs div ni = 0" using that \<open>ni < bs\<close> by (simp add: div_neg_neg_trivial)
      then show ?thesis by simp
    qed
  qed
  show ?thesis
  proof (cases "bs < ni \<or> ni = 0")
    case True
    then show ?thesis by (auto simp add: RandomIdentitySampler_init_def)
  next
    case False
    then consider "0 < ni" "ni \<le> bs" | "ni < 0" "ni \<le> bs" by linarith
    then show ?thesis
    proof cases
      case 1
      with pos [OF 1] show ?thesis
        by (simp add: RandomIdentitySampler_init_def Let_def)
    next
      case 2
      with neg [OF 2] show ?thesis
        by (auto simp add: RandomIdentitySampler_init_def Let_def)
    qed
  qed
qed

text \<open>
  Claim C8, amended. \<open>RandomIdentitySampler\<close> raises ValueError when \<open>batch_size <
  num_instances\<close> and AssertionError when there are fewer distinct identities than
  \<open>batch_size // num_instances\<close>. \<open>RandomDomainSampler\<close> and \<open>RandomDatasetSampler\<close>
  raise AssertionError when \<open>batch_size\<close> is not divisible by the group count (the
  given one, or the number of distinct labels when it is unset or not positive), and
  ZeroDivisionError when that count is zero; both before the pass of the construction
  starts, so whatever the fuel. \<open>InferenceSampler\<close> raises AssertionError when
  \<open>data_num\<close> is not positive. An empty data source makes the construction of the
  domain and dataset samplers fail always, and that of the identity sampler fail
  exactly unless \<open>num_instances\<close> is negative and below \<open>batch_size\<close>; so it fails for
  every positive \<open>num_instances\<close>.
\<close>

theorem construction_errors:
  "(bs < ni \<longrightarrow> RandomIdentitySampler_init ds bs ni = Inl ValueError)
   \<and> (ni \<le> bs \<and> int (card (pid ` set ds)) < bs div ni \<longrightarrow>
        RandomIdentitySampler_init ds bs ni = Inl AssertionError)
   \<and> (\<forall>(init, label) \<in> {(RandomDomainSampler_init, camid), (RandomDatasetSampler_init, dsetid)}.
        (\<forall>gc. gc = (case nd of None \<Rightarrow> int (card (label ` set ds))
                      | Some n \<Rightarrow> if n \<le> 0 then int (card (label ` set ds)) else n) \<longrightarrow>
           (gc \<noteq> 0 \<and> bs mod gc \<noteq> 0 \<longrightarrow> init fuel ds bs nd t = Some (Inl AssertionError))
         \<and> (gc = 0 \<longrightarrow> init fuel ds bs nd t = Some (Inl ZeroDivisionError)))
      \<and> (\<exists>e. init (Suc fuel) [] bs nd t = Some (Inl e)))
   \<and> (dn \<le> 0 \<longrightarrow> InferenceSampler_init ns dn nro rko = Inl AssertionError)
   \<and> ((\<exists>e. RandomIdentitySampler_init [] bs ni = Inl e) \<longleftrightarrow> \<not> (ni < 0 \<and> ni < bs))"
proof -
  have A: "bs < ni \<longrightarrow> RandomIdentitySampler_init ds bs ni = Inl ValueError"
    by (simp add: RandomIdentitySampler_init_refused(1))
  have B: "ni \<le> bs \<and> int (card (pid ` set ds)) < bs div ni \<longrightarrow>
        RandomIdentitySampler_init ds bs ni = Inl AssertionError"
    by (simp add: RandomIdentitySampler_init_refused(2))
  have C0: "(\<forall>gc. gc = (case nd of None \<Rightarrow> int (card (label ` set ds))
                      | Some n \<Rightarrow> if n \<le> 0 then int (card (label ` set ds)) else n) \<longrightarrow>
           (gc \<noteq> 0 \<and> bs mod gc \<noteq> 0 \<longrightarrow>
              balanced_init label fuel ds bs nd t = Some (Inl AssertionError))
         \<and> (gc = 0 \<longrightarrow> balanced_init label fuel ds bs nd t = Some (Inl ZeroDivisionError)))
      \<and> (\<exists>e. balanced_init label (Suc fuel) [] bs nd t = Some (Inl e))" for label
    using balanced_init_refused [where nd = nd and label = label and ds = ds and fuel = fuel
        and bs = bs and t = t]
      balanced_init_empty [where label = label and fuel = fuel and bs = bs and nd = nd and t = t]
    by simp
  have C: "\<forall>(init, label) \<in> {(RandomDomainSampler_init, camid), (RandomDatasetSampler_init, dsetid)}.
        (\<forall>gc. gc = (case nd of None \<Rightarrow> int (card (label ` set ds))
                      | Some n \<Rightarrow> if n \<le> 0 then int (card (label ` set ds)) else n) \<longrightarrow>
           (gc \<noteq> 0 \<and> bs mod gc \<noteq> 0 \<longrightarrow> init fuel ds bs nd t = Some (Inl AssertionError))
         \<and> (gc = 0 \<longrightarrow> init fuel ds bs nd t = Some (Inl ZeroDivisionError)))
      \<and> (\<exists>e. init (Suc fuel) [] bs nd t = Some (Inl e))"
    using C0 [of camid] C0 [of dsetid]
    by (simp add: RandomDomainSampler_init_def RandomDatasetSampler_init_def)
  have D: "dn \<le> 0 \<longrightarrow> InferenceSampler_init ns dn nro rko = Inl AssertionError"
    by (simp add: InferenceSampler_init_def)
  note E = RandomIdentitySampler_init_empty [of bs ni]
  from A B C D E show ?thesis by (intro conjI)
qed

text \<open>Refused configurations over the six items, and over no items.\<close>

theorem construction_errors_witness:
  "(2 :: int) < 4 \<and> RandomIdentitySampler_init six_items 2 4 = Inl ValueError
   \<and> (2 :: int) \<le> 8 \<and> int (card (pid ` set six_items)) < 8 div 2
   \<and> RandomIdentitySampler_init six_items 8 2 = Inl AssertionError
   \<and> (2 :: int) \<noteq> 0 \<and> (3 :: int) mod 2 \<noteq> 0
   \<and> RandomDomainSampler_init 5 six_items 3 (Some 2) [] = Some (Inl AssertionError)
   \<and> RandomDatasetSampler_init 5 six_items 3 (Some 2) [] = Some (Inl AssertionError)
   \<and> (\<exists>e. RandomDomainSampler_init (Suc 4) [] 3 (Some 2) [] = Some (Inl e))
   \<and> (0 :: int) \<le> 0 \<and> InferenceSampler_init module_globals 0 (Some 3) (Some 0) = Inl AssertionError
   \<and> (\<exists>e. RandomIdentitySampler_init [] 8 2 = Inl e)"
proof -
  note T = construction_errors [where bs = 2 and ni = 4 and ds = six_items]
  note U = construction_errors [where bs = 8 and ni = 2 and ds = six_items and dn = 0
      and ns = module_globals and nro = "Some 3" and rko = "Some 0"]
  note V = construction_errors [where bs = 3 and ni = 2 and ds = six_items and nd = "Some 2"
      and fuel = 5 and t = "[]"]
  note W = construction_errors [where bs = 3 and ni = 2 and ds = six_items and nd = "Some 2"
      and fuel = 4 and t = "[]"]
  have c: "int (card (pid ` set six_items)) < 8 div 2"
    by (simp add: six_items_def)
  from T have f1: "RandomIdentitySampler_init six_items 2 4 = Inl ValueError" by simp
  from U c have f2: "RandomIdentitySampler_init six_items 8 2 = Inl AssertionError" by simp
  from V have f3: "RandomDomainSampler_init 5 six_items 3 (Some 2) [] = Some (Inl AssertionError)"
    "RandomDatasetSampler_init 5 six_items 3 (Some 2) [] = Some (Inl AssertionError)"
    by simp_all
  from W have f4: "\<exists>e. RandomDomainSampler_init (Suc 4) [] 3 (Some 2) [] = Some (Inl e)"
    by simp
  from U have f5: "InferenceSampler_init module_globals 0 (Some 3) (Some 0) = Inl AssertionError"
    by simp
  from U have f6: "\<exists>e. RandomIdentitySampler_init [] 8 2 = Inl e" by simp
  have f7: "(2 :: int) < 4" "(2 :: int) \<le> 8" "(2 :: int) \<noteq> 0" "(3 :: int) mod 2 \<noteq> 0"
    "(0 :: int) \<le> 0" by simp_all
  show ?thesis by (intro conjI; fact)
qed

text \<open>
  Claim C8 as stated fails for the identity sampler: with \<open>batch_size = 1\<close> and
  \<open>num_instances = -1\<close> the empty data source passes both checks
  (\<open>1 // -1 = -1 \<le> 0\<close>) and a sampler is built.
\<close>

theorem empty_collection_constructs:
  "RandomIdentitySampler_init [] 1 (- 1)
     = Inr \<lparr> ris_data_source = [], ris_batch_size = 1, ris_num_instances = - 1,
             ris_num_pids_per_batch = - 1, ris_index_dic = [], ris_pids = [],
             ris_length = 0 \<rparr>"
  by (simp add: RandomIdentitySampler_init_def Let_def)

end
